theory Spec2Isabelle
  imports Main "HOL-Library.Multiset"
begin

section \<open>Sudoku core: boards, difficulty table, constraint check\<close>

text \<open>
  Shallow embedding of \<^verbatim>\<open>src/sudoku/core.ts\<close>.

  A \<^verbatim>\<open>Board\<close> is a \<^verbatim>\<open>number[][]\<close> that the source documents as 9x9 with cell values
  0-9 (0 = empty). It is modelled as a list of rows of integers; \<^verbatim>\<open>board[r][c]\<close> is
  \<open>b ! r ! c\<close> and the assignment \<^verbatim>\<open>board[r][c] = v\<close> is \<open>set_cell b r c v\<close>. The model
  follows the source on 9x9 boards (predicate \<open>is_grid\<close>), where every index the
  source uses is in range; on other shapes JavaScript reads \<^verbatim>\<open>undefined\<close> or raises
  a \<^verbatim>\<open>TypeError\<close>, which the model does not represent.
\<close>

type_synonym CellValue = int
type_synonym Board = "CellValue list list"

datatype DifficultyLevel = EASY | MEDIUM | HARD | EXPERT

record Puzzle =
  puzzle :: Board
  solution :: Board
  difficulty :: DifficultyLevel

record DifficultyEntry =
  minGiven :: nat
  maxGiven :: nat
  maxAttempts :: nat
  description :: string

fun DIFFICULTY_CONFIG :: "DifficultyLevel \<Rightarrow> DifficultyEntry" where
  "DIFFICULTY_CONFIG EASY =
     \<lparr>minGiven = 36, maxGiven = 40, maxAttempts = 3, description = ''Good for beginners''\<rparr>"
| "DIFFICULTY_CONFIG MEDIUM =
     \<lparr>minGiven = 32, maxGiven = 35, maxAttempts = 5, description = ''Moderate challenge''\<rparr>"
| "DIFFICULTY_CONFIG HARD =
     \<lparr>minGiven = 28, maxGiven = 31, maxAttempts = 7, description = ''For experienced players''\<rparr>"
| "DIFFICULTY_CONFIG EXPERT =
     \<lparr>minGiven = 24, maxGiven = 27, maxAttempts = 9,
      description = ''Very few givens, can require advanced strategies''\<rparr>"

definition is_grid :: "Board \<Rightarrow> bool" where
  "is_grid b \<longleftrightarrow> length b = 9 \<and> (\<forall>row \<in> set b. length row = 9)"

definition set_cell :: "Board \<Rightarrow> nat \<Rightarrow> nat \<Rightarrow> CellValue \<Rightarrow> Board" where
  "set_cell b r c v = b[r := (b ! r)[c := v]]"

definition emptyBoard :: Board where
  "emptyBoard = replicate 9 (replicate 9 0)"

definition cloneBoard :: "Board \<Rightarrow> Board" where
  "cloneBoard b = map (\<lambda>r. map (\<lambda>x. x) r) b"

text \<open>
  \<^verbatim>\<open>isValidPlacement\<close>: three loops, each returning false at the first cell equal to
  \<^verbatim>\<open>value\<close>: the nine cells of the row, the nine cells of the column, the nine cells of
  the box whose corner is \<^verbatim>\<open>(Math.floor(row / 3) * 3, Math.floor(col / 3) * 3)\<close>.
\<close>

definition isValidPlacement :: "Board \<Rightarrow> nat \<Rightarrow> nat \<Rightarrow> CellValue \<Rightarrow> bool" where
  "isValidPlacement board row col val =
     (if list_ex (\<lambda>c. board ! row ! c = val) [0..<9] then False
      else if list_ex (\<lambda>r. board ! r ! col = val) [0..<9] then False
      else
        (let boxRow = (row div 3) * 3; boxCol = (col div 3) * 3
         in if list_ex (\<lambda>r. list_ex (\<lambda>c. board ! (boxRow + r) ! (boxCol + c) = val) [0..<3]) [0..<3]
            then False else True))"

text \<open>The row-major enumeration of the 81 cells used by the nested \<^verbatim>\<open>for r / for c\<close> loops.\<close>

definition all_cells :: "(nat \<times> nat) list" where
  "all_cells = concat (map (\<lambda>r. map (\<lambda>c. (r, c)) [0..<9]) [0..<9])"

definition countFilled :: "Board \<Rightarrow> nat" where
  "countFilled board = length (filter (\<lambda>(r, c). board ! r ! c \<noteq> 0) all_cells)"

definition isComplete :: "Board \<Rightarrow> bool" where
  "isComplete board = (\<not> list_ex (\<lambda>(r, c). board ! r ! c = 0) all_cells)"

definition boardEquals :: "Board \<Rightarrow> Board \<Rightarrow> bool" where
  "boardEquals a b = (\<not> list_ex (\<lambda>(r, c). a ! r ! c \<noteq> b ! r ! c) all_cells)"


subsection \<open>The random source\<close>

text \<open>
  \<^verbatim>\<open>Math.random()\<close> is the only external input. It is modelled as an infinite sequence
  of draws, threaded through every function that uses it:
  \<^verbatim>\<open>Math.floor(Math.random() * k)\<close> for a positive integer \<open>k\<close> is a value in \<open>0..k-1\<close>,
  modelled as the next draw reduced modulo \<open>k\<close>. Every theorem below holds for every
  sequence of draws.
\<close>

type_synonym rng = "nat \<Rightarrow> nat"

definition randBelow :: "nat \<Rightarrow> rng \<Rightarrow> nat \<times> rng" where
  "randBelow k g = (g 0 mod k, \<lambda>n. g (Suc n))"

text \<open>\<^verbatim>\<open>randInt(min, max)\<close>; it is only called with \<open>min \<le> max\<close>.\<close>

definition randInt :: "nat \<Rightarrow> nat \<Rightarrow> rng \<Rightarrow> nat \<times> rng" where
  "randInt lo hi g = (case randBelow (hi - lo + 1) g of (x, g') \<Rightarrow> (x + lo, g'))"

text \<open>
  \<^verbatim>\<open>shuffleInPlace\<close>: \<^verbatim>\<open>for (i = arr.length - 1; i > 0; i--)\<close> swaps \<^verbatim>\<open>arr[i]\<close> with
  \<^verbatim>\<open>arr[j]\<close> for a random \<open>j\<close> in \<open>0..i\<close>.
\<close>

fun shuffleFrom :: "nat \<Rightarrow> 'a list \<Rightarrow> rng \<Rightarrow> 'a list \<times> rng" where
  "shuffleFrom 0 arr g = (arr, g)"
| "shuffleFrom (Suc i) arr g =
     (case randBelow (Suc i + 1) g of (j, g') \<Rightarrow>
        shuffleFrom i (arr[Suc i := arr ! j, j := arr ! Suc i]) g')"

definition shuffleInPlace :: "'a list \<Rightarrow> rng \<Rightarrow> 'a list \<times> rng" where
  "shuffleInPlace arr g = shuffleFrom (length arr - 1) arr g"

subsection \<open>The solver\<close>

text \<open>The values \<open>1..9\<close> that pass \<^verbatim>\<open>isValidPlacement\<close> at a cell, in increasing order.\<close>

definition candidates :: "Board \<Rightarrow> nat \<Rightarrow> nat \<Rightarrow> CellValue list" where
  "candidates b r c = filter (\<lambda>v. isValidPlacement b r c v) [1..9]"

text \<open>
  The cell selection of \<^verbatim>\<open>backtrack\<close>. The state of the scan is the selected cell
  (\<open>None\<close> for \<^verbatim>\<open>row = col = -1\<close>) and \<^verbatim>\<open>minOptions\<close>. The inner loop breaks when
  \<^verbatim>\<open>minOptions\<close> becomes 1, and the outer loop breaks after a row when it is 1.
\<close>

fun mrvScanCols ::
  "Board \<Rightarrow> nat \<Rightarrow> nat list \<Rightarrow> (nat \<times> nat) option \<times> nat \<Rightarrow> (nat \<times> nat) option \<times> nat" where
  "mrvScanCols b r [] st = st"
| "mrvScanCols b r (c # cs) (sel, minOptions) =
     (if b ! r ! c = 0 then
        (let opts = candidates b r c in
         if length opts < minOptions then
           (if length opts = 1 then (Some (r, c), length opts)
            else mrvScanCols b r cs (Some (r, c), length opts))
         else mrvScanCols b r cs (sel, minOptions))
      else mrvScanCols b r cs (sel, minOptions))"

fun mrvScanRows ::
  "Board \<Rightarrow> nat list \<Rightarrow> (nat \<times> nat) option \<times> nat \<Rightarrow> (nat \<times> nat) option \<times> nat" where
  "mrvScanRows b [] st = st"
| "mrvScanRows b (r # rs) st =
     (let st' = mrvScanCols b r [0..<9] st
      in if snd st' = 1 then st' else mrvScanRows b rs st')"

definition selectCell :: "Board \<Rightarrow> (nat \<times> nat) option" where
  "selectCell b = fst (mrvScanRows b [0..<9] (None, 10))"

text \<open>
  \<^verbatim>\<open>backtrack\<close> is a closure over the scratch board \<^verbatim>\<open>b\<close>, the counter \<^verbatim>\<open>solutions\<close> and
  the flag \<^verbatim>\<open>countSolutions\<close>; the model passes the board, the counter and the random
  source as state and returns them with the boolean result. \<open>None\<close> stands for a call
  that does not return. \<open>tryCandidates\<close> is the loop \<^verbatim>\<open>for (const v of candidates)\<close>,
  with the recursive call as a parameter.
\<close>

type_synonym bstate = "Board \<times> nat \<times> rng"

fun tryCandidates ::
  "(bstate \<Rightarrow> (bool \<times> bstate) option) \<Rightarrow> bool \<Rightarrow> nat \<Rightarrow> nat \<Rightarrow> CellValue list \<Rightarrow> bstate
     \<Rightarrow> (bool \<times> bstate) option" where
  "tryCandidates rec countSolutions row col [] st = Some (False, st)"
| "tryCandidates rec countSolutions row col (v # vs) (b, sols, g) =
     Option.bind (rec (set_cell b row col v, sols, g)) (\<lambda>(ok, b', sols', g').
       if ok \<and> \<not> countSolutions then Some (True, b', sols', g')
       else if ok \<and> countSolutions \<and> sols' > 1 then Some (True, b', sols', g')
       else tryCandidates rec countSolutions row col vs (set_cell b' row col 0, sols', g'))"

lemma tryCandidates_mono [partial_function_mono]:
  assumes "\<And>x. mono_option (\<lambda>f. R f x)"
  shows "mono_option (\<lambda>f. tryCandidates (R f) cs row col vs st)"
proof (induction vs arbitrary: st)
  case Nil
  show ?case by (simp add: option.const_mono)
next
  case (Cons v vs)
  obtain b n g where st: "st = (b, n, g)" by (cases st) auto
  show ?case unfolding st tryCandidates.simps
    apply (rule bind_mono)
     apply (rule assms)
    subgoal for y
      apply (cases y)
      apply (simp only: prod.case)
      apply (intro if_mono option.const_mono Cons)
      done
    done
qed

partial_function (option) backtrack :: "bool \<Rightarrow> bstate \<Rightarrow> (bool \<times> bstate) option" where
  "backtrack countSolutions st =
     (case st of (b, sols, g) \<Rightarrow>
        (case selectCell b of
           None \<Rightarrow> Some (True, b, sols + 1, g)
         | Some (row, col) \<Rightarrow>
             (case shuffleInPlace (candidates b row col) g of (cands, g') \<Rightarrow>
                tryCandidates (backtrack countSolutions) countSolutions row col cands
                  (b, sols, g'))))"

record SolveResult =
  solved :: bool
  solutions :: "nat option"

text \<open>The loop that copies the scratch board into the caller's board, cell by cell.\<close>

definition copyBack :: "Board \<Rightarrow> Board \<Rightarrow> Board" where
  "copyBack board b = fold (\<lambda>(r, c) bd. set_cell bd r c (b ! r ! c)) all_cells board"

text \<open>
  \<^verbatim>\<open>solve(board, countSolutions)\<close> returns its result object together with the caller's
  board as it is after the call.
\<close>

definition solve :: "Board \<Rightarrow> bool \<Rightarrow> rng \<Rightarrow> (SolveResult \<times> Board \<times> rng) option" where
  "solve board countSolutions g =
     (let b = cloneBoard board in
      Option.bind (backtrack countSolutions (b, 0, g)) (\<lambda>(ok, b', sols, g').
        if \<not> countSolutions then
          Some (\<lparr>solved = ok, solutions = None\<rparr>,
                (if ok then copyBack board b' else board), g')
        else Some (\<lparr>solved = sols > 0, solutions = Some sols\<rparr>, board, g')))"

subsection \<open>The generator\<close>

definition nextCell :: "Board \<Rightarrow> (nat \<times> nat) option" where
  "nextCell board = find (\<lambda>(r, c). board ! r ! c = 0) all_cells"

fun fillCandidates ::
  "(Board \<times> rng \<Rightarrow> (bool \<times> Board \<times> rng) option) \<Rightarrow> nat \<Rightarrow> nat \<Rightarrow> CellValue list
     \<Rightarrow> Board \<times> rng \<Rightarrow> (bool \<times> Board \<times> rng) option" where
  "fillCandidates rec row col [] st = Some (False, st)"
| "fillCandidates rec row col (v # vs) (board, g) =
     (if isValidPlacement board row col v then
        Option.bind (rec (set_cell board row col v, g)) (\<lambda>(ok, board', g').
          if ok then Some (True, board', g')
          else fillCandidates rec row col vs (set_cell board' row col 0, g'))
      else fillCandidates rec row col vs (board, g))"

lemma fillCandidates_mono [partial_function_mono]:
  assumes "\<And>x. mono_option (\<lambda>f. R f x)"
  shows "mono_option (\<lambda>f. fillCandidates (R f) row col vs st)"
proof (induction vs arbitrary: st)
  case Nil
  show ?case by (simp add: option.const_mono)
next
  case (Cons v vs)
  obtain b g where st: "st = (b, g)" by (cases st) auto
  show ?case unfolding st fillCandidates.simps
    apply (rule if_mono)
     apply (rule bind_mono)
      apply (rule assms)
    subgoal for y
      apply (cases y)
      apply (simp only: prod.case)
      apply (intro if_mono option.const_mono Cons)
      done
    apply (rule Cons)
    done
qed

partial_function (option) fillBoard :: "Board \<times> rng \<Rightarrow> (bool \<times> Board \<times> rng) option" where
  "fillBoard st =
     (case st of (board, g) \<Rightarrow>
        (case nextCell board of
           None \<Rightarrow> Some (True, board, g)
         | Some (row, col) \<Rightarrow>
             (case shuffleInPlace [1, 2, 3, 4, 5, 6, 7, 8, 9] g of (cands, g') \<Rightarrow>
                fillCandidates fillBoard row col cands (board, g'))))"

text \<open>
  The \<^verbatim>\<open>while\<close> loop of \<^verbatim>\<open>carvePuzzle\<close>. Its state is the removal order still to try,
  the board, the attempt counter and the random source; \<^verbatim>\<open>cells.pop()\<close> takes the last
  element (the array is not empty there, so \<^verbatim>\<open>popped\<close> is never \<^verbatim>\<open>undefined\<close>).
\<close>

function carveLoop ::
  "nat \<Rightarrow> nat \<Rightarrow> nat list \<times> Board \<times> nat \<times> rng \<Rightarrow> (nat list \<times> Board \<times> nat \<times> rng) option" where
  "carveLoop targetGiven maxAtt (cells, board, attempts, g) =
     (if cells \<noteq> [] \<and> countFilled board > targetGiven \<and> attempts < maxAtt * 81 then
        (let idx = last cells; r = idx div 9; c = idx mod 9;
             backup = board ! r ! c;
             board1 = set_cell board r c 0
         in case solve board1 True g of
              None \<Rightarrow> None
            | Some (res, board2, g') \<Rightarrow>
                carveLoop targetGiven maxAtt
                  (butlast cells,
                   (if (case solutions res of None \<Rightarrow> True | Some n \<Rightarrow> n = 0 \<or> n \<noteq> 1)
                    then set_cell board2 r c backup else board2),
                   attempts + 1, g'))
      else Some (cells, board, attempts, g))"
  by pat_completeness auto
termination
  by (relation "measure (\<lambda>(t, m, cells, board, attempts, g). length cells)") auto

declare carveLoop.simps [simp del]

definition carvePuzzle :: "Board \<Rightarrow> nat \<Rightarrow> nat \<Rightarrow> nat \<Rightarrow> rng \<Rightarrow> (Board \<times> rng) option" where
  "carvePuzzle board minG maxG maxAtt g =
     (case randInt minG maxG g of (targetGiven, g1) \<Rightarrow>
      case shuffleInPlace [0..<81] g1 of (cells, g2) \<Rightarrow>
        Option.bind (carveLoop targetGiven maxAtt (cells, board, 0, g2))
          (\<lambda>(cells', board', attempts', g3). Some (cloneBoard board', g3)))"

definition generatePuzzle :: "DifficultyLevel \<Rightarrow> rng \<Rightarrow> (Puzzle \<times> rng) option" where
  "generatePuzzle d g =
     (let config = DIFFICULTY_CONFIG d; full = emptyBoard in
      Option.bind (fillBoard (full, g)) (\<lambda>(ok, full', g1).
        let sol = cloneBoard full' in
        Option.bind (carvePuzzle full' (minGiven config) (maxGiven config) (maxAttempts config) g1)
          (\<lambda>(puz, g2). Some (\<lparr>puzzle = puz, solution = sol, difficulty = d\<rparr>, g2))))"

section \<open>Specification vocabulary\<close>

text \<open>
  Two cells are related when they share a row, a column or a 3x3 box; a cell is related
  to itself.
\<close>

definition related :: "nat \<times> nat \<Rightarrow> nat \<times> nat \<Rightarrow> bool" where
  "related p q \<longleftrightarrow>
     fst p = fst q \<or> snd p = snd q \<or> (fst p div 3 = fst q div 3 \<and> snd p div 3 = snd q div 3)"

text \<open>
  \<open>completes b s\<close>: the grid \<open>s\<close> is a full assignment the search can reach from \<open>b\<close>.
  The nonzero cells of \<open>b\<close> are kept, and every cell that is empty in \<open>b\<close> holds a value
  in \<open>1..9\<close> that differs from every other cell of its row, column and box.
\<close>

definition completes :: "Board \<Rightarrow> Board \<Rightarrow> bool" where
  "completes b s \<longleftrightarrow>
     is_grid s \<and>
     (\<forall>r<9. \<forall>c<9.
        if b ! r ! c \<noteq> 0 then s ! r ! c = b ! r ! c
        else 1 \<le> s ! r ! c \<and> s ! r ! c \<le> 9 \<and>
             (\<forall>r'<9. \<forall>c'<9. (r', c') \<noteq> (r, c) \<and> related (r, c) (r', c')
                 \<longrightarrow> s ! r' ! c' \<noteq> s ! r ! c))"

definition completions :: "Board \<Rightarrow> Board set" where
  "completions b = {s. completes b s}"

text \<open>The number of empty cells: it decreases along every branch of the search.\<close>

definition countEmpty :: "Board \<Rightarrow> nat" where
  "countEmpty b = length (filter (\<lambda>(r, c). b ! r ! c = 0) all_cells)"

text \<open>The invariant of the cell-selection scan.\<close>

definition sel_ok :: "Board \<Rightarrow> (nat \<times> nat) option \<times> nat \<Rightarrow> bool" where
  "sel_ok b st \<longleftrightarrow>
     (case fst st of None \<Rightarrow> snd st = 10
      | Some (r, c) \<Rightarrow> r < 9 \<and> c < 9 \<and> b ! r ! c = 0)"

text \<open>
  What a call of \<^verbatim>\<open>backtrack\<close> in count mode does to the counter \<open>n \<le> 1\<close> on a board
  with \<open>k\<close> completions: it returns, the counter becomes \<open>min 2 (n + k)\<close>, the board is
  restored unless the counter passed one, and the call returns true when it did.
\<close>

definition count_spec :: "Board \<Rightarrow> nat \<Rightarrow> nat \<Rightarrow> (bool \<times> bstate) option \<Rightarrow> bool" where
  "count_spec b n k res \<longleftrightarrow>
     (\<exists>ok b' n' g'. res = Some (ok, b', n', g') \<and> n' = min 2 (n + k)
        \<and> (n' \<le> 1 \<longrightarrow> b' = b) \<and> (1 < n' \<longrightarrow> ok))"

text \<open>
  The values of a row, of a column and of the 3x3 box with box coordinates \<open>(br, bc)\<close>,
  and what it means for the grid to be fully filled and legal: each of them holds each
  of the values 1 to 9 exactly once.
\<close>

definition rowVals :: "Board \<Rightarrow> nat \<Rightarrow> CellValue list" where
  "rowVals s r = map (\<lambda>c. s ! r ! c) [0..<9]"

definition colVals :: "Board \<Rightarrow> nat \<Rightarrow> CellValue list" where
  "colVals s c = map (\<lambda>r. s ! r ! c) [0..<9]"

definition boxVals :: "Board \<Rightarrow> nat \<Rightarrow> nat \<Rightarrow> CellValue list" where
  "boxVals s br bc =
     map (\<lambda>(i, j). s ! (3 * br + i) ! (3 * bc + j)) (List.product [0..<3] [0..<3])"

definition each_once :: "CellValue list \<Rightarrow> bool" where
  "each_once xs \<longleftrightarrow> (\<forall>v\<in>{1..9}. count_list xs v = 1)"

definition legal_full :: "Board \<Rightarrow> bool" where
  "legal_full s \<longleftrightarrow>
     is_grid s \<and> (\<forall>r<9. each_once (rowVals s r)) \<and> (\<forall>c<9. each_once (colVals s c))
     \<and> (\<forall>br<3. \<forall>bc<3. each_once (boxVals s br bc))"

text \<open>A concrete legal grid, and an executable check that related cells differ.\<close>

definition example_grid :: Board where
  "example_grid =
    [[1, 2, 3, 4, 5, 6, 7, 8, 9],
     [4, 5, 6, 7, 8, 9, 1, 2, 3],
     [7, 8, 9, 1, 2, 3, 4, 5, 6],
     [2, 3, 4, 5, 6, 7, 8, 9, 1],
     [5, 6, 7, 8, 9, 1, 2, 3, 4],
     [8, 9, 1, 2, 3, 4, 5, 6, 7],
     [3, 4, 5, 6, 7, 8, 9, 1, 2],
     [6, 7, 8, 9, 1, 2, 3, 4, 5],
     [9, 1, 2, 3, 4, 5, 6, 7, 8]]"

definition all_differ :: "Board \<Rightarrow> bool" where
  "all_differ s \<longleftrightarrow>
     list_all (\<lambda>(r, c). 1 \<le> s ! r ! c \<and> s ! r ! c \<le> 9 \<and>
        list_all (\<lambda>(r', c'). (r', c') = (r, c) \<or> \<not> related (r, c) (r', c')
                    \<or> s ! r' ! c' \<noteq> s ! r ! c) all_cells) all_cells"

text \<open>
  \<open>sub_board b s\<close>: every nonzero cell of \<open>b\<close> agrees with \<open>s\<close>. \<open>carve_post\<close> relates the
  state of the carve loop at entry with the state at exit.
\<close>

definition sub_board :: "Board \<Rightarrow> Board \<Rightarrow> bool" where
  "sub_board b s \<longleftrightarrow> (\<forall>r<9. \<forall>c<9. b ! r ! c \<noteq> 0 \<longrightarrow> b ! r ! c = s ! r ! c)"

definition carve_post ::
  "nat \<Rightarrow> nat \<Rightarrow> Board \<Rightarrow> nat list \<times> Board \<times> nat \<times> rng \<Rightarrow> nat list \<times> Board \<times> nat \<times> rng \<Rightarrow> bool" where
  "carve_post t m sol st st' \<longleftrightarrow>
     (case st of (cells, board, att, g) \<Rightarrow>
      case st' of (cells', board', att', g') \<Rightarrow>
        is_grid board'
        \<and> att' + length cells' = att + length cells
        \<and> (cells' = [] \<or> countFilled board' \<le> t \<or> \<not> att' < m * 81)
        \<and> (t \<le> countFilled board \<longrightarrow> t \<le> countFilled board')
        \<and> (sub_board board sol \<and> card (completions board) = 1
             \<longrightarrow> sub_board board' sol \<and> card (completions board') = 1))"

text \<open>
  The target given-count that \<^verbatim>\<open>carvePuzzle\<close> draws and the state in which its loop
  starts, for the random source \<open>g1\<close> that \<^verbatim>\<open>fillBoard\<close> leaves behind.
\<close>

definition carve_target :: "DifficultyLevel \<Rightarrow> rng \<Rightarrow> nat" where
  "carve_target d g1 =
     fst (randInt (minGiven (DIFFICULTY_CONFIG d)) (maxGiven (DIFFICULTY_CONFIG d)) g1)"

definition carve_init :: "DifficultyLevel \<Rightarrow> Board \<Rightarrow> rng \<Rightarrow> nat list \<times> Board \<times> nat \<times> rng" where
  "carve_init d full g1 =
     (case randInt (minGiven (DIFFICULTY_CONFIG d)) (maxGiven (DIFFICULTY_CONFIG d)) g1 of
        (t, g1') \<Rightarrow>
          (case shuffleInPlace [0..<81] g1' of (cells, g2) \<Rightarrow> (cells, full, 0, g2)))"

text \<open>
  A completion of a puzzle grid: a fully filled legal grid that agrees with the puzzle
  on every given.
\<close>

definition is_completion :: "Board \<Rightarrow> Board \<Rightarrow> bool" where
  "is_completion b s \<longleftrightarrow> legal_full s \<and> (\<forall>r<9. \<forall>c<9. b ! r ! c \<noteq> 0 \<longrightarrow> s ! r ! c = b ! r ! c)"

text \<open>
  A well-formed input grid is 9x9 with every cell in \<open>0..9\<close>; \<open>bad_grid\<close> is a 9x9 grid
  whose cells are all 42.
\<close>

definition well_formed :: "Board \<Rightarrow> bool" where
  "well_formed b \<longleftrightarrow> is_grid b \<and> (\<forall>r<9. \<forall>c<9. 0 \<le> b ! r ! c \<and> b ! r ! c \<le> 9)"

definition bad_grid :: Board where
  "bad_grid = replicate 9 (replicate 9 42)"

section \<open>Basic facts about boards\<close>

lemma is_grid_emptyBoard: "is_grid emptyBoard"
  by (simp add: is_grid_def emptyBoard_def)

lemma is_grid_row: "is_grid b \<Longrightarrow> r < 9 \<Longrightarrow> length (b ! r) = 9"
  using nth_mem [of r b] by (simp add: is_grid_def)

lemma is_grid_set_cell: "is_grid b \<Longrightarrow> is_grid (set_cell b r c v)"
proof (cases "r < length b")
  case True
  assume g: "is_grid b"
  with True have "length ((b ! r)[c := v]) = 9"
    by (simp add: is_grid_def)
  with g show ?thesis
    using set_update_subset_insert [of b r "(b ! r)[c := v]"]
    by (auto simp: is_grid_def set_cell_def)
next
  case False
  assume "is_grid b"
  with False show ?thesis by (simp add: set_cell_def list_update_beyond)
qed

lemma nth_set_cell:
  "is_grid b \<Longrightarrow> r < 9 \<Longrightarrow> c < 9 \<Longrightarrow>
     set_cell b r c v ! r' ! c' = (if r' = r \<and> c' = c then v else b ! r' ! c')"
  by (auto simp: set_cell_def is_grid_def nth_list_update)

lemma cloneBoard_id: "cloneBoard b = b"
  by (simp add: cloneBoard_def)

lemma set_all_cells: "set all_cells = {(r, c). r < 9 \<and> c < 9}"
  by (auto simp: all_cells_def)

lemma distinct_all_cells: "distinct all_cells"
  unfolding all_cells_def
  by (rule distinct_concat) (auto simp: distinct_map inj_on_def)

lemma length_all_cells: "length all_cells = 81"
  by (simp add: all_cells_def length_concat comp_def sum_list_triv)

lemma grid_eqI:
  assumes "is_grid a" "is_grid b" "\<And>r c. r < 9 \<Longrightarrow> c < 9 \<Longrightarrow> a ! r ! c = b ! r ! c"
  shows "a = b"
proof (rule nth_equalityI)
  show "length a = length b" using assms by (simp add: is_grid_def)
next
  fix r assume "r < length a"
  then have r: "r < 9" using assms by (simp add: is_grid_def)
  show "a ! r = b ! r"
    by (rule nth_equalityI) (use r assms in \<open>simp_all add: is_grid_row\<close>)
qed

lemma set_cell_same:
  "is_grid b \<Longrightarrow> r < 9 \<Longrightarrow> c < 9 \<Longrightarrow> b ! r ! c = v \<Longrightarrow> set_cell b r c v = b"
  by (rule grid_eqI) (auto simp: is_grid_set_cell nth_set_cell)

lemma set_cell_set_cell:
  "is_grid b \<Longrightarrow> r < 9 \<Longrightarrow> c < 9 \<Longrightarrow> set_cell (set_cell b r c v) r c w = set_cell b r c w"
  by (rule grid_eqI) (auto simp: is_grid_set_cell nth_set_cell)

lemma shuffleFrom_mset:
  "i < length arr \<Longrightarrow> mset (fst (shuffleFrom i arr g)) = mset arr"
proof (induction i arbitrary: arr g)
  case 0
  then show ?case by simp
next
  case (Suc i)
  obtain j g' where r: "randBelow (Suc i + 1) g = (j, g')" by (cases "randBelow (Suc i + 1) g")
  then have "j < Suc i + 1" by (auto simp: randBelow_def)
  then have j: "j < length arr" using Suc.prems by linarith
  let ?arr = "arr[Suc i := arr ! j, j := arr ! Suc i]"
  have "mset ?arr = mset arr" using j Suc.prems by (simp add: mset_swap)
  moreover have "i < length ?arr" using Suc.prems by simp
  ultimately show ?case using Suc.IH [of ?arr g'] r by simp
qed

lemma shuffleInPlace_mset: "mset (fst (shuffleInPlace arr g)) = mset arr"
proof (cases arr)
  case Nil
  then show ?thesis by (simp add: shuffleInPlace_def)
next
  case (Cons x xs)
  then show ?thesis unfolding shuffleInPlace_def by (intro shuffleFrom_mset) simp
qed

lemma list_ex_upt: "list_ex P [0..<n] \<longleftrightarrow> (\<exists>i<n. P i)"
  by (auto simp: list_ex_iff)

lemma isValidPlacement_iff:
  "isValidPlacement b row col v \<longleftrightarrow>
     \<not> ((\<exists>c<9. b ! row ! c = v) \<or> (\<exists>r<9. b ! r ! col = v)
        \<or> (\<exists>i<3. \<exists>j<3. b ! (row div 3 * 3 + i) ! (col div 3 * 3 + j) = v))"
  by (simp add: isValidPlacement_def list_ex_upt Let_def)


lemma box_cell:
  fixes n :: nat
  assumes "n < 9" "i < 3"
  shows "n div 3 * 3 + i < 9" "(n div 3 * 3 + i) div 3 = n div 3"
  using assms by presburger+

lemma box_cell_conv:
  fixes n m :: nat
  assumes "m div 3 = n div 3"
  shows "m = n div 3 * 3 + m mod 3" "m mod 3 < 3"
  using assms [symmetric] by auto

section \<open>The constraint check\<close>

lemma isValidPlacement_related:
  assumes "row < 9" "col < 9"
  shows "isValidPlacement b row col v \<longleftrightarrow>
     (\<forall>r<9. \<forall>c<9. related (row, col) (r, c) \<longrightarrow> b ! r ! c \<noteq> v)"
proof
  assume "isValidPlacement b row col v"
  then have ok1: "\<And>c. c < 9 \<Longrightarrow> b ! row ! c \<noteq> v"
    and ok2: "\<And>r. r < 9 \<Longrightarrow> b ! r ! col \<noteq> v"
    and ok3: "\<And>i j. i < 3 \<Longrightarrow> j < 3 \<Longrightarrow> b ! (row div 3 * 3 + i) ! (col div 3 * 3 + j) \<noteq> v"
    unfolding isValidPlacement_iff by blast+
  show "\<forall>r<9. \<forall>c<9. related (row, col) (r, c) \<longrightarrow> b ! r ! c \<noteq> v"
  proof (intro allI impI)
    fix r c :: nat
    assume rc: "r < 9" "c < 9" and rel: "related (row, col) (r, c)"
    from rel consider "r = row" | "c = col" | "r div 3 = row div 3" "c div 3 = col div 3"
      unfolding related_def fst_conv snd_conv by metis
    then show "b ! r ! c \<noteq> v"
    proof cases
      case 1
      then show ?thesis using ok1 [OF rc(2)] by simp
    next
      case 2
      then show ?thesis using ok2 [OF rc(1)] by simp
    next
      case 3
      have "b ! (row div 3 * 3 + r mod 3) ! (col div 3 * 3 + c mod 3) \<noteq> v"
        by (rule ok3 [OF box_cell_conv(2) [OF 3(1)] box_cell_conv(2) [OF 3(2)]])
      then show ?thesis
        using box_cell_conv(1) [OF 3(1)] box_cell_conv(1) [OF 3(2)] by simp
    qed
  qed
next
  assume a: "\<forall>r<9. \<forall>c<9. related (row, col) (r, c) \<longrightarrow> b ! r ! c \<noteq> v"
  have a': "b ! r ! c \<noteq> v" if "r < 9" "c < 9" "related (row, col) (r, c)" for r c
    using a that by blast
  have "b ! row ! c \<noteq> v" if "c < 9" for c
    by (rule a' [OF assms(1) that]) (simp add: related_def)
  moreover have "b ! r ! col \<noteq> v" if "r < 9" for r
    by (rule a' [OF that assms(2)]) (simp add: related_def)
  moreover have "b ! (row div 3 * 3 + i) ! (col div 3 * 3 + j) \<noteq> v" if "i < 3" "j < 3" for i j
  proof (rule a')
    show "row div 3 * 3 + i < 9" by (rule box_cell(1) [OF assms(1) that(1)])
    show "col div 3 * 3 + j < 9" by (rule box_cell(1) [OF assms(2) that(2)])
    show "related (row, col) (row div 3 * 3 + i, col div 3 * 3 + j)"
      unfolding related_def fst_conv snd_conv
      using box_cell(2) [OF assms(1) that(1)] box_cell(2) [OF assms(2) that(2)] by metis
  qed
  ultimately show "isValidPlacement b row col v"
    unfolding isValidPlacement_iff by blast
qed

section \<open>Cell selection\<close>

lemma length_candidates: "length (candidates b r c) \<le> 9"
proof -
  have "length (candidates b r c) \<le> length [1..9::int]"
    unfolding candidates_def by (rule length_filter_le)
  then show ?thesis by simp
qed

lemma mrvScanCols_ok:
  assumes "r < 9" "set cs \<subseteq> {0..<9}" "sel_ok b st"
  shows "sel_ok b (mrvScanCols b r cs st)
     \<and> (fst (mrvScanCols b r cs st) = None \<longrightarrow> fst st = None \<and> (\<forall>c\<in>set cs. b ! r ! c \<noteq> 0))"
  using assms
proof (induction cs arbitrary: st)
  case Nil
  then show ?case by simp
next
  case (Cons c cs)
  obtain sel m where st: "st = (sel, m)" by (cases st)
  have c: "c < 9" and cs: "set cs \<subseteq> {0..<9}" using Cons.prems(2) by auto
  show ?case
  proof (cases "b ! r ! c = 0")
    case False
    then show ?thesis using Cons.IH [OF Cons.prems(1) cs Cons.prems(3)] st by simp
  next
    case True
    let ?n = "length (candidates b r c)"
    have new: "sel_ok b (Some (r, c), ?n)"
      using True c Cons.prems(1) by (simp add: sel_ok_def)
    show ?thesis
    proof (cases "?n < m")
      case lt: True
      show ?thesis
      proof (cases "?n = 1")
        case True
        then show ?thesis using lt \<open>b ! r ! c = 0\<close> new st by (simp add: Let_def)
      next
        case False
        show ?thesis
          using False lt \<open>b ! r ! c = 0\<close> st Cons.IH [OF Cons.prems(1) cs new]
          by (simp add: Let_def)
      qed
    next
      case ge: False
      have "sel \<noteq> None"
        using ge length_candidates [of b r c] Cons.prems(3) st
        by (cases sel) (auto simp: sel_ok_def)
      then show ?thesis
        using ge \<open>b ! r ! c = 0\<close> st Cons.IH [OF Cons.prems(1) cs Cons.prems(3)]
        by (auto simp: Let_def)
    qed
  qed
qed

lemma mrvScanRows_ok:
  assumes "set rs \<subseteq> {0..<9}" "sel_ok b st"
  shows "sel_ok b (mrvScanRows b rs st)
     \<and> (fst (mrvScanRows b rs st) = None \<longrightarrow>
          fst st = None \<and> (\<forall>r\<in>set rs. \<forall>c<9. b ! r ! c \<noteq> 0))"
  using assms
proof (induction rs arbitrary: st)
  case Nil
  then show ?case by simp
next
  case (Cons r rs)
  have r: "r < 9" and rs: "set rs \<subseteq> {0..<9}" using Cons.prems(1) by auto
  let ?st = "mrvScanCols b r [0..<9] st"
  have "set [0..<9::nat] \<subseteq> {0..<9}" by simp
  note cols = mrvScanCols_ok [OF r this Cons.prems(2)]
  show ?case
  proof (cases "snd ?st = 1")
    case True
    then have "fst ?st \<noteq> None" using cols by (auto simp: sel_ok_def split: option.splits)
    then show ?thesis using True cols by (auto simp: Let_def)
  next
    case False
    have c1: "sel_ok b ?st" using cols by simp
    show ?thesis
      using False Cons.IH [OF rs c1] cols
      by (auto simp: Let_def)
  qed
qed

lemma selectCell_None: "selectCell b = None \<Longrightarrow> r < 9 \<Longrightarrow> c < 9 \<Longrightarrow> b ! r ! c \<noteq> 0"
  using mrvScanRows_ok [of "[0..<9]" b "(None, 10)"]
  by (simp add: selectCell_def sel_ok_def)

lemma selectCell_Some: "selectCell b = Some (r, c) \<Longrightarrow> r < 9 \<and> c < 9 \<and> b ! r ! c = 0"
  using mrvScanRows_ok [of "[0..<9]" b "(None, 10)"]
  by (simp add: selectCell_def sel_ok_def)

lemma nextCell_None: "nextCell b = None \<Longrightarrow> r < 9 \<Longrightarrow> c < 9 \<Longrightarrow> b ! r ! c \<noteq> 0"
  by (auto simp: nextCell_def find_None_iff set_all_cells)

lemma nextCell_Some: "nextCell b = Some (r, c) \<Longrightarrow> r < 9 \<and> c < 9 \<and> b ! r ! c = 0"
  using set_all_cells by (auto simp: nextCell_def find_Some_iff dest!: nth_mem)

section \<open>Completions of a board\<close>

lemma related_sym: "related p q \<Longrightarrow> related q p"
  unfolding related_def by metis

lemma completes_grid: "completes b s \<Longrightarrow> is_grid s"
  by (simp add: completes_def)

lemma completes_given:
  "completes b s \<Longrightarrow> r < 9 \<Longrightarrow> c < 9 \<Longrightarrow> b ! r ! c \<noteq> 0 \<Longrightarrow> s ! r ! c = b ! r ! c"
  unfolding completes_def by metis

lemma completes_range:
  "completes b s \<Longrightarrow> r < 9 \<Longrightarrow> c < 9 \<Longrightarrow> b ! r ! c = 0 \<Longrightarrow> 1 \<le> s ! r ! c \<and> s ! r ! c \<le> 9"
  unfolding completes_def by metis

lemma completes_differ:
  "completes b s \<Longrightarrow> r < 9 \<Longrightarrow> c < 9 \<Longrightarrow> b ! r ! c = 0 \<Longrightarrow> r' < 9 \<Longrightarrow> c' < 9 \<Longrightarrow>
     (r', c') \<noteq> (r, c) \<Longrightarrow> related (r, c) (r', c') \<Longrightarrow> s ! r' ! c' \<noteq> s ! r ! c"
  unfolding completes_def by meson

lemma completesI:
  assumes "is_grid s"
    and "\<And>r c. r < 9 \<Longrightarrow> c < 9 \<Longrightarrow> b ! r ! c \<noteq> 0 \<Longrightarrow> s ! r ! c = b ! r ! c"
    and "\<And>r c. r < 9 \<Longrightarrow> c < 9 \<Longrightarrow> b ! r ! c = 0 \<Longrightarrow> 1 \<le> s ! r ! c \<and> s ! r ! c \<le> 9"
    and "\<And>r c r' c'. r < 9 \<Longrightarrow> c < 9 \<Longrightarrow> b ! r ! c = 0 \<Longrightarrow> r' < 9 \<Longrightarrow> c' < 9 \<Longrightarrow>
           (r', c') \<noteq> (r, c) \<Longrightarrow> related (r, c) (r', c') \<Longrightarrow> s ! r' ! c' \<noteq> s ! r ! c"
  shows "completes b s"
  unfolding completes_def using assms by (simp (no_asm_simp))

lemma set_candidates:
  "set (candidates b r c) = {v. 1 \<le> v \<and> v \<le> 9 \<and> isValidPlacement b r c v}"
  by (auto simp: candidates_def)

lemma distinct_candidates: "distinct (candidates b r c)"
  by (simp add: candidates_def)

lemma countEmpty_set_cell:
  assumes "is_grid b" "r < 9" "c < 9" "b ! r ! c = 0" "v \<noteq> 0"
  shows "countEmpty (set_cell b r c v) < countEmpty b"
proof -
  let ?P = "\<lambda>(r, c). b ! r ! c = 0"
  have in_cells: "\<And>p. p \<in> set all_cells \<Longrightarrow> fst p < 9 \<and> snd p < 9"
    by (auto simp: set_all_cells)
  have "filter (\<lambda>(r', c'). set_cell b r c v ! r' ! c' = 0) all_cells
      = filter (\<lambda>p. p \<noteq> (r, c)) (filter ?P all_cells)"
    unfolding filter_filter
    by (rule filter_cong [OF refl]) (use assms in \<open>auto simp: nth_set_cell dest: in_cells\<close>)
  moreover have "(r, c) \<in> set (filter ?P all_cells)"
    using assms by (simp add: set_all_cells)
  ultimately show ?thesis
    unfolding countEmpty_def using length_filter_less [of "(r, c)" "filter ?P all_cells" "\<lambda>p. p \<noteq> (r, c)"]
    by simp
qed

lemma completes_full:
  assumes "is_grid b" "\<And>r c. r < 9 \<Longrightarrow> c < 9 \<Longrightarrow> b ! r ! c \<noteq> 0"
  shows "completes b s \<longleftrightarrow> s = b"
proof
  assume "completes b s"
  then show "s = b"
    using assms by (intro grid_eqI) (auto simp: completes_grid completes_given)
next
  assume "s = b"
  then show "completes b s" using assms by (intro completesI) auto
qed

lemma completes_cell:
  assumes "is_grid b" "r < 9" "c < 9" "v \<noteq> 0" "completes (set_cell b r c v) s"
  shows "s ! r ! c = v"
  using completes_given [OF assms(5) assms(2,3)] assms by (simp add: nth_set_cell)

lemma completes_split:
  assumes g: "is_grid b" and rc: "r < 9" "c < 9" and e: "b ! r ! c = 0"
  shows "completes b s \<longleftrightarrow>
     s ! r ! c \<in> set (candidates b r c) \<and> completes (set_cell b r c (s ! r ! c)) s"
proof
  let ?v = "s ! r ! c"
  let ?b = "set_cell b r c ?v"
  assume s: "completes b s"
  have v: "1 \<le> ?v" "?v \<le> 9" using completes_range [OF s rc e] by auto
  have "b ! r' ! c' \<noteq> ?v" if "r' < 9" "c' < 9" "related (r, c) (r', c')" for r' c'
  proof (cases "b ! r' ! c' = 0")
    case True
    then show ?thesis using v by simp
  next
    case False
    then have ne: "(r', c') \<noteq> (r, c)" using e by auto
    have "s ! r' ! c' = b ! r' ! c'" by (rule completes_given [OF s that(1,2) False])
    then show ?thesis using completes_differ [OF s rc e that(1,2) ne that(3)] by simp
  qed
  then have valid: "isValidPlacement b r c ?v"
    unfolding isValidPlacement_related [OF rc] by blast
  have "completes ?b s"
  proof (rule completesI)
    show "is_grid s" by (rule completes_grid [OF s])
  next
    fix r1 c1 assume "r1 < 9" "c1 < 9" "?b ! r1 ! c1 \<noteq> 0"
    then show "s ! r1 ! c1 = ?b ! r1 ! c1"
      using completes_given [OF s, of r1 c1] by (auto simp: nth_set_cell [OF g rc])
  next
    fix r1 c1 assume "r1 < 9" "c1 < 9" "?b ! r1 ! c1 = 0"
    then show "1 \<le> s ! r1 ! c1 \<and> s ! r1 ! c1 \<le> 9"
      using completes_range [OF s, of r1 c1] v by (auto simp: nth_set_cell [OF g rc] split: if_splits)
  next
    fix r1 c1 r' c'
    assume a: "r1 < 9" "c1 < 9" "?b ! r1 ! c1 = 0" "r' < 9" "c' < 9" "(r', c') \<noteq> (r1, c1)"
      "related (r1, c1) (r', c')"
    from a(1-3) have "b ! r1 ! c1 = 0" using v by (auto simp: nth_set_cell [OF g rc] split: if_splits)
    then show "s ! r' ! c' \<noteq> s ! r1 ! c1"
      by (rule completes_differ [OF s a(1,2) _ a(4-7)])
  qed
  with v valid show "?v \<in> set (candidates b r c) \<and> completes ?b s"
    by (simp add: set_candidates)
next
  let ?v = "s ! r ! c"
  let ?b = "set_cell b r c ?v"
  assume "?v \<in> set (candidates b r c) \<and> completes ?b s"
  then have v: "1 \<le> ?v" "?v \<le> 9" and valid: "isValidPlacement b r c ?v" and s: "completes ?b s"
    by (auto simp: set_candidates)
  have nth: "?b ! r1 ! c1 = (if r1 = r \<and> c1 = c then ?v else b ! r1 ! c1)" for r1 c1
    by (rule nth_set_cell [OF g rc])
  show "completes b s"
  proof (rule completesI)
    show "is_grid s" by (rule completes_grid [OF s])
  next
    fix r1 c1 assume a: "r1 < 9" "c1 < 9" "b ! r1 ! c1 \<noteq> 0"
    then have "?b ! r1 ! c1 = b ! r1 ! c1" using e by (auto simp: nth)
    then show "s ! r1 ! c1 = b ! r1 ! c1"
      using completes_given [OF s a(1,2)] a(3) by simp
  next
    fix r1 c1 assume a: "r1 < 9" "c1 < 9" "b ! r1 ! c1 = 0"
    show "1 \<le> s ! r1 ! c1 \<and> s ! r1 ! c1 \<le> 9"
    proof (cases "r1 = r \<and> c1 = c")
      case True
      then show ?thesis using v by simp
    next
      case False
      then have "?b ! r1 ! c1 = 0" using a(3) by (auto simp: nth)
      then show ?thesis by (rule completes_range [OF s a(1,2)])
    qed
  next
    fix r1 c1 r' c'
    assume a: "r1 < 9" "c1 < 9" "b ! r1 ! c1 = 0" "r' < 9" "c' < 9" "(r', c') \<noteq> (r1, c1)"
      "related (r1, c1) (r', c')"
    show "s ! r' ! c' \<noteq> s ! r1 ! c1"
    proof (cases "r1 = r \<and> c1 = c")
      case False
      then have "?b ! r1 ! c1 = 0" using a(3) by (auto simp: nth)
      then show ?thesis by (rule completes_differ [OF s a(1,2) _ a(4-7)])
    next
      case True
      then have ne: "\<not> (r' = r \<and> c' = c)" and rel: "related (r, c) (r', c')" using a(6,7) by auto
      show ?thesis
      proof (cases "b ! r' ! c' = 0")
        case True
        then have z: "?b ! r' ! c' = 0" using ne by (auto simp: nth)
        have "s ! r ! c \<noteq> s ! r' ! c'"
          by (rule completes_differ [OF s a(4,5) z rc _ related_sym [OF rel]]) (use ne in auto)
        then show ?thesis using \<open>r1 = r \<and> c1 = c\<close> by auto
      next
        case False
        then have "?b ! r' ! c' = b ! r' ! c'" using ne by (auto simp: nth)
        then have "s ! r' ! c' = b ! r' ! c'"
          using completes_given [OF s a(4,5)] False by simp
        moreover have "b ! r' ! c' \<noteq> ?v"
          using valid a(4,5) rel unfolding isValidPlacement_related [OF rc] by blast
        ultimately show ?thesis using \<open>r1 = r \<and> c1 = c\<close> by auto
      qed
    qed
  qed
qed

lemma completes_extend:
  assumes "is_grid b" "r < 9" "c < 9" "b ! r ! c = 0" "v \<in> set (candidates b r c)"
    "completes (set_cell b r c v) s"
  shows "completes b s"
proof -
  have "v \<noteq> 0" using assms(5) by (simp add: set_candidates)
  then have "s ! r ! c = v" by (rule completes_cell [OF assms(1-3) _ assms(6)])
  then show ?thesis using completes_split [OF assms(1-4), of s] assms(5,6) by simp
qed

lemma completions_split:
  assumes "is_grid b" "r < 9" "c < 9" "b ! r ! c = 0"
  shows "completions b = (\<Union>v\<in>set (candidates b r c). completions (set_cell b r c v))"
proof (intro set_eqI iffI)
  fix s assume "s \<in> completions b"
  then show "s \<in> (\<Union>v\<in>set (candidates b r c). completions (set_cell b r c v))"
    using completes_split [OF assms, of s] by (auto simp: completions_def)
next
  fix s assume "s \<in> (\<Union>v\<in>set (candidates b r c). completions (set_cell b r c v))"
  then show "s \<in> completions b"
    using completes_extend [OF assms] by (auto simp: completions_def)
qed

lemma completions_disjoint:
  assumes "is_grid b" "r < 9" "c < 9" "v \<noteq> 0" "w \<noteq> 0" "v \<noteq> w"
  shows "completions (set_cell b r c v) \<inter> completions (set_cell b r c w) = {}"
  using completes_cell [OF assms(1-3) assms(4)] completes_cell [OF assms(1-3) assms(5)] assms(6)
  by (auto simp: completions_def)

lemma finite_completions: "finite (completions b)"
proof -
  let ?V = "{1..9} \<union> (\<lambda>(r, c). b ! r ! c) ` ({..<9} \<times> {..<9})"
  let ?rows = "{row. set row \<subseteq> ?V \<and> length row = 9}"
  have fV: "finite ?V" by simp
  have frows: "finite ?rows" by (rule finite_lists_length_eq [OF fV])
  have "completions b \<subseteq> {s. set s \<subseteq> ?rows \<and> length s = 9}"
  proof
    fix s assume "s \<in> completions b"
    then have s: "completes b s" by (simp add: completions_def)
    then have g: "is_grid s" by (rule completes_grid)
    have "row \<in> ?rows" if "row \<in> set s" for row
    proof -
      from that obtain r where r: "r < 9" "row = s ! r"
        using g by (auto simp: in_set_conv_nth is_grid_def)
      have len: "length row = 9" using g that by (simp add: is_grid_def)
      have "x \<in> ?V" if "x \<in> set row" for x
      proof -
        from that len obtain c where c: "c < 9" "x = row ! c"
          by (auto simp: in_set_conv_nth)
        show ?thesis
        proof (cases "b ! r ! c = 0")
          case True
          then show ?thesis using completes_range [OF s r(1) c(1)] c(2) r(2) by simp
        next
          case False
          then have "x = b ! r ! c" using completes_given [OF s r(1) c(1)] c(2) r(2) by simp
          moreover have "(r, c) \<in> {..<9} \<times> {..<9}" using r(1) c(1) by simp
          ultimately have "x \<in> (\<lambda>(r, c). b ! r ! c) ` ({..<9} \<times> {..<9})"
            by (metis (no_types, lifting) case_prod_conv image_eqI)
          then show ?thesis by simp
        qed
      qed
      with len show ?thesis by blast
    qed
    then show "s \<in> {s. set s \<subseteq> ?rows \<and> length s = 9}"
      using g by (auto simp: is_grid_def)
  qed
  then show ?thesis
    by (rule finite_subset) (rule finite_lists_length_eq [OF frows])
qed

lemma card_completions_split:
  assumes "is_grid b" "r < 9" "c < 9" "b ! r ! c = 0"
  shows "card (completions b)
     = (\<Sum>v\<leftarrow>candidates b r c. card (completions (set_cell b r c v)))"
proof -
  have nz: "v \<noteq> 0" if "v \<in> set (candidates b r c)" for v
    using that by (auto simp: set_candidates)
  have "card (\<Union>v\<in>set (candidates b r c). completions (set_cell b r c v))
      = (\<Sum>v\<in>set (candidates b r c). card (completions (set_cell b r c v)))"
  proof (rule card_UN_disjoint)
    show "\<forall>v\<in>set (candidates b r c). \<forall>w\<in>set (candidates b r c). v \<noteq> w \<longrightarrow>
        completions (set_cell b r c v) \<inter> completions (set_cell b r c w) = {}"
      using completions_disjoint [OF assms(1-3)] nz by blast
  qed (simp_all add: finite_completions)
  then show ?thesis
    unfolding completions_split [OF assms]
    by (simp add: sum_list_distinct_conv_sum_set [OF distinct_candidates])
qed

lemma completions_full:
  assumes "is_grid b" "\<And>r c. r < 9 \<Longrightarrow> c < 9 \<Longrightarrow> b ! r ! c \<noteq> 0"
  shows "completions b = {b}"
  using completes_full [OF assms] by (auto simp: completions_def)

lemma sum_list_perm:
  fixes f :: "'a \<Rightarrow> nat"
  assumes "mset xs = mset ys"
  shows "(\<Sum>x\<leftarrow>xs. f x) = (\<Sum>x\<leftarrow>ys. f x)"
proof -
  have "sum_mset (image_mset f (mset xs)) = sum_mset (image_mset f (mset ys))"
    using assms by simp
  then show ?thesis by (simp add: sum_mset_sum_list flip: mset_map)
qed

section \<open>Correctness of the search\<close>

lemma set_cell_reset:
  assumes "is_grid b" "r < 9" "c < 9" "b ! r ! c = 0"
  shows "set_cell (set_cell b r c v) r c 0 = b"
  using assms by (simp add: set_cell_set_cell set_cell_same)

lemma tryCandidates_count:
  assumes g: "is_grid b" and rc: "r < 9" "c < 9" and e: "b ! r ! c = 0"
    and IH: "\<And>v n g. v \<in> set vs \<Longrightarrow> n \<le> 1 \<Longrightarrow>
        count_spec (set_cell b r c v) n (card (completions (set_cell b r c v)))
          (backtrack True (set_cell b r c v, n, g))"
    and n: "n \<le> 1"
  shows "\<exists>ok b' n' g'. tryCandidates (backtrack True) True r c vs (b, n, g) = Some (ok, b', n', g')
     \<and> n' = min 2 (n + (\<Sum>v\<leftarrow>vs. card (completions (set_cell b r c v))))
     \<and> (n' \<le> 1 \<longrightarrow> b' = b) \<and> (ok \<longleftrightarrow> 1 < n')"
  using IH n
proof (induction vs arbitrary: n g)
  case Nil
  then show ?case by auto
next
  case (Cons v vs)
  let ?k = "card (completions (set_cell b r c v))"
  from Cons.prems(1) [of v n g] Cons.prems(2)
  obtain ok1 b1 n1 g1 where child: "backtrack True (set_cell b r c v, n, g) = Some (ok1, b1, n1, g1)"
    and n1: "n1 = min 2 (n + ?k)" and b1: "n1 \<le> 1 \<Longrightarrow> b1 = set_cell b r c v"
    and ok1: "1 < n1 \<Longrightarrow> ok1"
    by (auto simp: count_spec_def)
  show ?case
  proof (cases "1 < n1")
    case True
    then show ?thesis using child ok1 n1 by (auto simp: min_def split: if_splits)
  next
    case False
    then have le: "n1 \<le> 1" by simp
    have reset: "set_cell b1 r c 0 = b" using b1 [OF le] set_cell_reset [OF g rc e] by simp
    have "\<exists>ok b' n' g'. tryCandidates (backtrack True) True r c vs (b, n1, g1) = Some (ok, b', n', g')
       \<and> n' = min 2 (n1 + (\<Sum>v\<leftarrow>vs. card (completions (set_cell b r c v))))
       \<and> (n' \<le> 1 \<longrightarrow> b' = b) \<and> (ok \<longleftrightarrow> 1 < n')"
      by (rule Cons.IH) (use Cons.prems(1) le in auto)
    moreover have "n1 = n + ?k" using n1 le by (simp add: min_def split: if_splits)
    ultimately show ?thesis using child False reset by (simp add: add.assoc)
  qed
qed

lemma backtrack_count:
  assumes "is_grid b" "n \<le> 1"
  shows "count_spec b n (card (completions b)) (backtrack True (b, n, g))"
  using assms
proof (induction "countEmpty b" arbitrary: b n g rule: less_induct)
  case less
  note g = \<open>is_grid b\<close>
  show ?case
  proof (cases "selectCell b")
    case None
    then have "completions b = {b}"
      using completions_full [OF g] selectCell_None by blast
    then show ?thesis
      using None less.prems(2)
      by (subst backtrack.simps) (auto simp: count_spec_def)
  next
    case (Some p)
    obtain r c where p: "p = (r, c)" by (cases p)
    have rc: "r < 9" "c < 9" and e: "b ! r ! c = 0"
      using selectCell_Some [of b r c] Some p by auto
    obtain cands g' where sh: "shuffleInPlace (candidates b r c) g = (cands, g')"
      by (cases "shuffleInPlace (candidates b r c) g")
    have ms: "mset cands = mset (candidates b r c)"
      using shuffleInPlace_mset [of "candidates b r c" g] sh by simp
    then have sc: "set cands = set (candidates b r c)" by (rule mset_eq_setD)
    have IH: "count_spec (set_cell b r c v) m (card (completions (set_cell b r c v)))
          (backtrack True (set_cell b r c v, m, h))" if "v \<in> set cands" "m \<le> 1" for v m h
    proof (rule less.hyps)
      have "v \<noteq> 0" using that(1) sc by (auto simp: set_candidates)
      then show "countEmpty (set_cell b r c v) < countEmpty b"
        by (rule countEmpty_set_cell [OF g rc e])
    qed (use that g in \<open>simp_all add: is_grid_set_cell\<close>)
    have tot: "(\<Sum>v\<leftarrow>cands. card (completions (set_cell b r c v))) = card (completions b)"
      using sum_list_perm [OF ms] card_completions_split [OF g rc e] by simp
    from tryCandidates_count [OF g rc e IH less.prems(2), of cands g']
    show ?thesis
      unfolding tot using Some p sh
      by (subst backtrack.simps) (auto simp: count_spec_def)
  qed
qed

lemma tryCandidates_first:
  assumes g: "is_grid b" and rc: "r < 9" "c < 9" and e: "b ! r ! c = 0"
    and IH: "\<And>v n g. v \<in> set vs \<Longrightarrow>
        \<exists>ok b' n' g'. backtrack False (set_cell b r c v, n, g) = Some (ok, b', n', g')
          \<and> (ok \<longleftrightarrow> completions (set_cell b r c v) \<noteq> {})
          \<and> (ok \<longrightarrow> completes (set_cell b r c v) b')
          \<and> (\<not> ok \<longrightarrow> b' = set_cell b r c v)"
  shows "\<exists>ok b' n' g'. tryCandidates (backtrack False) False r c vs (b, n, g) = Some (ok, b', n', g')
     \<and> (ok \<longleftrightarrow> (\<exists>v\<in>set vs. completions (set_cell b r c v) \<noteq> {}))
     \<and> (ok \<longrightarrow> (\<exists>v\<in>set vs. completes (set_cell b r c v) b'))
     \<and> (\<not> ok \<longrightarrow> b' = b)"
  using IH
proof (induction vs arbitrary: n g)
  case Nil
  then show ?case by auto
next
  case (Cons v vs)
  have "v \<in> set (v # vs)" by simp
  from Cons.prems [OF this, of n g]
  obtain ok1 b1 n1 g1 where child: "backtrack False (set_cell b r c v, n, g) = Some (ok1, b1, n1, g1)"
    and ok1: "ok1 \<longleftrightarrow> completions (set_cell b r c v) \<noteq> {}"
    and b1: "ok1 \<longrightarrow> completes (set_cell b r c v) b1" "\<not> ok1 \<longrightarrow> b1 = set_cell b r c v"
    by blast
  show ?case
  proof (cases ok1)
    case True
    then show ?thesis using child ok1 b1(1) by auto
  next
    case False
    have reset: "set_cell b1 r c 0 = b" using b1(2) False set_cell_reset [OF g rc e] by simp
    have "\<exists>ok b' n' g'. tryCandidates (backtrack False) False r c vs (b, n1, g1) = Some (ok, b', n', g')
       \<and> (ok \<longleftrightarrow> (\<exists>v\<in>set vs. completions (set_cell b r c v) \<noteq> {}))
       \<and> (ok \<longrightarrow> (\<exists>v\<in>set vs. completes (set_cell b r c v) b'))
       \<and> (\<not> ok \<longrightarrow> b' = b)"
      by (rule Cons.IH) (use Cons.prems in auto)
    then show ?thesis using child False reset ok1 by auto
  qed
qed

lemma backtrack_first:
  assumes "is_grid b"
  shows "\<exists>ok b' n' g'. backtrack False (b, n, g) = Some (ok, b', n', g')
     \<and> (ok \<longleftrightarrow> completions b \<noteq> {})
     \<and> (ok \<longrightarrow> completes b b')
     \<and> (\<not> ok \<longrightarrow> b' = b)"
  using assms
proof (induction "countEmpty b" arbitrary: b n g rule: less_induct)
  case less
  note g = \<open>is_grid b\<close>
  show ?case
  proof (cases "selectCell b")
    case None
    then have "completions b = {b}"
      using completions_full [OF g] selectCell_None by blast
    then show ?thesis
      using None by (subst backtrack.simps) (auto simp: completions_def)
  next
    case (Some p)
    obtain r c where p: "p = (r, c)" by (cases p)
    have rc: "r < 9" "c < 9" and e: "b ! r ! c = 0"
      using selectCell_Some [of b r c] Some p by auto
    obtain cands g' where sh: "shuffleInPlace (candidates b r c) g = (cands, g')"
      by (cases "shuffleInPlace (candidates b r c) g")
    have "mset cands = mset (candidates b r c)"
      using shuffleInPlace_mset [of "candidates b r c" g] sh by simp
    then have sc: "set cands = set (candidates b r c)" by (rule mset_eq_setD)
    have IH: "\<exists>ok b' n' g'. backtrack False (set_cell b r c v, m, h) = Some (ok, b', n', g')
          \<and> (ok \<longleftrightarrow> completions (set_cell b r c v) \<noteq> {})
          \<and> (ok \<longrightarrow> completes (set_cell b r c v) b')
          \<and> (\<not> ok \<longrightarrow> b' = set_cell b r c v)" if "v \<in> set cands" for v m h
    proof (rule less.hyps)
      have "v \<noteq> 0" using that(1) sc by (auto simp: set_candidates)
      then show "countEmpty (set_cell b r c v) < countEmpty b"
        by (rule countEmpty_set_cell [OF g rc e])
    qed (use g in \<open>simp_all add: is_grid_set_cell\<close>)
    from tryCandidates_first [OF g rc e IH, of cands n g']
    obtain ok b' n' g'' where
      res: "tryCandidates (backtrack False) False r c cands (b, n, g') = Some (ok, b', n', g'')"
      and ok: "ok \<longleftrightarrow> (\<exists>v\<in>set cands. completions (set_cell b r c v) \<noteq> {})"
      and b': "ok \<Longrightarrow> \<exists>v\<in>set cands. completes (set_cell b r c v) b'" "\<not> ok \<Longrightarrow> b' = b"
      by blast
    have "ok \<longleftrightarrow> completions b \<noteq> {}"
      unfolding ok completions_split [OF g rc e] sc by blast
    moreover have "completes b b'" if ok
      using b'(1) [OF that] completes_extend [OF g rc e] sc by blast
    ultimately show ?thesis
      using Some p sh res b'(2) by (subst backtrack.simps) auto
  qed
qed

lemma fold_set_cells:
  assumes "is_grid board" "set cs \<subseteq> {(r, c). r < 9 \<and> c < 9}"
  shows "is_grid (fold (\<lambda>(r, c) bd. set_cell bd r c (b ! r ! c)) cs board)
     \<and> (\<forall>r<9. \<forall>c<9. fold (\<lambda>(r, c) bd. set_cell bd r c (b ! r ! c)) cs board ! r ! c
            = (if (r, c) \<in> set cs then b ! r ! c else board ! r ! c))"
  using assms
proof (induction cs arbitrary: board)
  case Nil
  then show ?case by simp
next
  case (Cons p cs)
  obtain r1 c1 where p: "p = (r1, c1)" by (cases p)
  have rc1: "r1 < 9" "c1 < 9" and cs: "set cs \<subseteq> {(r, c). r < 9 \<and> c < 9}"
    using Cons.prems(2) p by auto
  have g1: "is_grid (set_cell board r1 c1 (b ! r1 ! c1))"
    by (rule is_grid_set_cell [OF Cons.prems(1)])
  from Cons.IH [OF g1 cs] show ?case
    unfolding p by (auto simp: nth_set_cell [OF Cons.prems(1) rc1])
qed

lemma copyBack_grid:
  assumes "is_grid board" "is_grid b"
  shows "copyBack board b = b"
proof (rule grid_eqI)
  have sub: "set all_cells \<subseteq> {(r, c). r < 9 \<and> c < 9}" by (simp add: set_all_cells)
  note f = fold_set_cells [OF assms(1) sub, of b]
  show "is_grid (copyBack board b)" using f by (simp add: copyBack_def)
  show "is_grid b" by fact
  fix r c :: nat assume "r < 9" "c < 9"
  then show "copyBack board b ! r ! c = b ! r ! c"
    using f by (simp add: copyBack_def set_all_cells)
qed

lemma solve_count:
  assumes "is_grid board"
  shows "\<exists>g'. solve board True g
     = Some (\<lparr>solved = 0 < min 2 (card (completions board)),
              solutions = Some (min 2 (card (completions board)))\<rparr>, board, g')"
  using backtrack_count [OF assms, of 0 g]
  by (auto simp: solve_def cloneBoard_id count_spec_def)

lemma solve_first:
  assumes "is_grid board"
  shows "\<exists>ok board' g'. solve board False g = Some (\<lparr>solved = ok, solutions = None\<rparr>, board', g')
     \<and> (ok \<longleftrightarrow> completions board \<noteq> {})
     \<and> (ok \<longrightarrow> completes board board')
     \<and> (\<not> ok \<longrightarrow> board' = board)"
proof -
  from backtrack_first [OF assms, of 0 g]
  obtain ok b' n' g' where bt: "backtrack False (board, 0, g) = Some (ok, b', n', g')"
    and ok: "ok \<longleftrightarrow> completions board \<noteq> {}" and b': "ok \<Longrightarrow> completes board b'"
    by blast
  have "copyBack board b' = b'" if ok
    by (rule copyBack_grid [OF assms completes_grid [OF b' [OF that]]])
  then show ?thesis using bt ok b'
    by (auto simp: solve_def cloneBoard_id)
qed

lemma min2_zero: "min 2 k = 0 \<longleftrightarrow> k = 0" for k :: nat
  by (simp add: min_def)

lemma min2_one: "min 2 k = 1 \<longleftrightarrow> k = 1" for k :: nat
  by (simp add: min_def)

lemma completions_empty_iff: "completions b = {} \<longleftrightarrow> \<not> (\<exists>s. completes b s)"
  by (simp add: completions_def)

lemma mem_completions: "s \<in> completions b \<longleftrightarrow> completes b s"
  by (simp add: completions_def)

lemma completions_single_iff: "(\<exists>x. completions b = {x}) \<longleftrightarrow> (\<exists>!s. completes b s)"
proof
  assume "\<exists>x. completions b = {x}"
  then obtain x where x: "completions b = {x}" ..
  have "completes b s \<longleftrightarrow> s = x" for s
    using mem_completions [of s b] by (simp add: x)
  then show "\<exists>!s. completes b s" by (intro ex1I [of _ x]) simp_all
next
  assume e: "\<exists>!s. completes b s"
  then obtain x where x: "completes b x" by (rule ex1E)
  have u: "y = x" if "completes b y" for y
    by (rule ex1E [OF e]) (use that x in metis)
  have "completions b = {x}"
  proof (intro set_eqI iffI)
    fix s assume "s \<in> completions b"
    then have "completes b s" by (simp add: mem_completions)
    then have "s = x" by (rule u)
    then show "s \<in> {x}" by simp
  next
    fix s assume "s \<in> {x}"
    then have "s = x" by simp
    then show "s \<in> completions b" using x by (simp add: mem_completions)
  qed
  then show "\<exists>x. completions b = {x}" ..
qed

section \<open>Correctness of the grid filler\<close>

lemma fillCandidates_spec:
  assumes g: "is_grid b" and rc: "r < 9" "c < 9" and e: "b ! r ! c = 0"
    and IH: "\<And>v g. v \<in> set vs \<Longrightarrow> isValidPlacement b r c v \<Longrightarrow>
        \<exists>ok b' g'. fillBoard (set_cell b r c v, g) = Some (ok, b', g')
          \<and> (ok \<longleftrightarrow> completions (set_cell b r c v) \<noteq> {})
          \<and> (ok \<longrightarrow> completes (set_cell b r c v) b')
          \<and> (\<not> ok \<longrightarrow> b' = set_cell b r c v)"
  shows "\<exists>ok b' g'. fillCandidates fillBoard r c vs (b, g) = Some (ok, b', g')
     \<and> (ok \<longleftrightarrow> (\<exists>v\<in>set vs. isValidPlacement b r c v \<and> completions (set_cell b r c v) \<noteq> {}))
     \<and> (ok \<longrightarrow> (\<exists>v\<in>set vs. isValidPlacement b r c v \<and> completes (set_cell b r c v) b'))
     \<and> (\<not> ok \<longrightarrow> b' = b)"
  using IH
proof (induction vs arbitrary: g)
  case Nil
  then show ?case by auto
next
  case (Cons v vs)
  have rest: "\<exists>ok b' g'. fillCandidates fillBoard r c vs (b, h) = Some (ok, b', g')
       \<and> (ok \<longleftrightarrow> (\<exists>v\<in>set vs. isValidPlacement b r c v \<and> completions (set_cell b r c v) \<noteq> {}))
       \<and> (ok \<longrightarrow> (\<exists>v\<in>set vs. isValidPlacement b r c v \<and> completes (set_cell b r c v) b'))
       \<and> (\<not> ok \<longrightarrow> b' = b)" for h
    by (rule Cons.IH) (use Cons.prems in auto)
  show ?case
  proof (cases "isValidPlacement b r c v")
    case False
    then show ?thesis using rest [of g] by auto
  next
    case True
    have "v \<in> set (v # vs)" by simp
    from Cons.prems [OF this True, of g]
    obtain ok1 b1 g1 where child: "fillBoard (set_cell b r c v, g) = Some (ok1, b1, g1)"
      and ok1: "ok1 \<longleftrightarrow> completions (set_cell b r c v) \<noteq> {}"
      and b1: "ok1 \<longrightarrow> completes (set_cell b r c v) b1" "\<not> ok1 \<longrightarrow> b1 = set_cell b r c v"
      by blast
    show ?thesis
    proof (cases ok1)
      case ok: True
      then show ?thesis using child ok1 b1(1) True by auto
    next
      case no: False
      have reset: "set_cell b1 r c 0 = b" using b1(2) no set_cell_reset [OF g rc e] by simp
      show ?thesis using rest [of g1] child no reset ok1 True by auto
    qed
  qed
qed

lemma set_one_to_nine: "set [1, 2, 3, 4, 5, 6, 7, 8, 9 :: int] = {v. 1 \<le> v \<and> v \<le> 9}"
proof -
  have "[1, 2, 3, 4, 5, 6, 7, 8, 9 :: int] = [1..9]" by (simp add: upto.simps)
  then show ?thesis by (simp only: set_upto) auto
qed

lemma fillBoard_spec:
  assumes "is_grid b"
  shows "\<exists>ok b' g'. fillBoard (b, g) = Some (ok, b', g')
     \<and> (ok \<longleftrightarrow> completions b \<noteq> {})
     \<and> (ok \<longrightarrow> completes b b')
     \<and> (\<not> ok \<longrightarrow> b' = b)"
  using assms
proof (induction "countEmpty b" arbitrary: b g rule: less_induct)
  case less
  note g = \<open>is_grid b\<close>
  show ?case
  proof (cases "nextCell b")
    case None
    then have "completions b = {b}"
      using completions_full [OF g] nextCell_None by blast
    then show ?thesis
      using None by (subst fillBoard.simps) (auto simp: mem_completions [symmetric])
  next
    case (Some p)
    obtain r c where p: "p = (r, c)" by (cases p)
    have rc: "r < 9" "c < 9" and e: "b ! r ! c = 0"
      using nextCell_Some [of b r c] Some p by auto
    obtain cands g' where sh: "shuffleInPlace [1, 2, 3, 4, 5, 6, 7, 8, 9 :: int] g = (cands, g')"
      by (cases "shuffleInPlace [1, 2, 3, 4, 5, 6, 7, 8, 9 :: int] g")
    have "mset cands = mset [1, 2, 3, 4, 5, 6, 7, 8, 9 :: int]"
      using shuffleInPlace_mset [of "[1, 2, 3, 4, 5, 6, 7, 8, 9 :: int]" g] sh by simp
    then have "set cands = set [1, 2, 3, 4, 5, 6, 7, 8, 9 :: int]" by (rule mset_eq_setD)
    then have sc: "set cands = {v. 1 \<le> v \<and> v \<le> 9}" by (simp only: set_one_to_nine)
    have valid: "(v \<in> set cands \<and> isValidPlacement b r c v) \<longleftrightarrow> v \<in> set (candidates b r c)" for v
      unfolding sc set_candidates by simp
    have IH: "\<exists>ok b' g'. fillBoard (set_cell b r c v, h) = Some (ok, b', g')
          \<and> (ok \<longleftrightarrow> completions (set_cell b r c v) \<noteq> {})
          \<and> (ok \<longrightarrow> completes (set_cell b r c v) b')
          \<and> (\<not> ok \<longrightarrow> b' = set_cell b r c v)" if "v \<in> set cands" for v h
    proof (rule less.hyps)
      have "v \<noteq> 0" using that(1) sc by auto
      then show "countEmpty (set_cell b r c v) < countEmpty b"
        by (rule countEmpty_set_cell [OF g rc e])
    qed (use g in \<open>simp_all add: is_grid_set_cell\<close>)
    from fillCandidates_spec [OF g rc e IH, of cands g']
    obtain ok b' g'' where
      res: "fillCandidates fillBoard r c cands (b, g') = Some (ok, b', g'')"
      and ok: "ok \<longleftrightarrow> (\<exists>v\<in>set cands. isValidPlacement b r c v \<and> completions (set_cell b r c v) \<noteq> {})"
      and b': "ok \<longrightarrow> (\<exists>v\<in>set cands. isValidPlacement b r c v \<and> completes (set_cell b r c v) b')"
        "\<not> ok \<longrightarrow> b' = b"
      by blast
    have "ok \<longleftrightarrow> completions b \<noteq> {}"
      unfolding ok completions_split [OF g rc e] using valid by blast
    moreover have "completes b b'" if ok
      using b'(1) that completes_extend [OF g rc e] valid by blast
    ultimately show ?thesis
      using Some p sh res b'(2) by (subst fillBoard.simps) auto
  qed
qed

section \<open>Legal grids\<close>

lemma all_differ_example: "all_differ example_grid"
  by code_simp


lemma emptyBoard_nth: "r < 9 \<Longrightarrow> c < 9 \<Longrightarrow> emptyBoard ! r ! c = 0"
  by (simp add: emptyBoard_def)

lemma completes_emptyI:
  assumes "is_grid s"
    and "\<And>r c. r < 9 \<Longrightarrow> c < 9 \<Longrightarrow> 1 \<le> s ! r ! c \<and> s ! r ! c \<le> 9"
    and "\<And>r c r' c'. r < 9 \<Longrightarrow> c < 9 \<Longrightarrow> r' < 9 \<Longrightarrow> c' < 9 \<Longrightarrow>
           (r', c') \<noteq> (r, c) \<Longrightarrow> related (r, c) (r', c') \<Longrightarrow> s ! r' ! c' \<noteq> s ! r ! c"
  shows "completes emptyBoard s"
  by (rule completesI) (use assms in \<open>simp_all add: emptyBoard_nth\<close>)

lemma all_differ_completes:
  assumes "is_grid s" "all_differ s"
  shows "completes emptyBoard s"
proof (rule completes_emptyI [OF assms(1)])
  fix r c :: nat assume rc: "r < 9" "c < 9"
  then have "(r, c) \<in> set all_cells" by (simp add: set_all_cells)
  with assms(2) have *: "1 \<le> s ! r ! c \<and> s ! r ! c \<le> 9 \<and>
        list_all (\<lambda>(r', c'). (r', c') = (r, c) \<or> \<not> related (r, c) (r', c')
                    \<or> s ! r' ! c' \<noteq> s ! r ! c) all_cells"
    unfolding all_differ_def list_all_iff by blast
  then show "1 \<le> s ! r ! c \<and> s ! r ! c \<le> 9" by simp
  fix r' c' :: nat
  assume a: "r' < 9" "c' < 9" "(r', c') \<noteq> (r, c)" "related (r, c) (r', c')"
  then have "(r', c') \<in> set all_cells" by (simp add: set_all_cells)
  with * have "(r', c') = (r, c) \<or> \<not> related (r, c) (r', c') \<or> s ! r' ! c' \<noteq> s ! r ! c"
    unfolding list_all_iff by blast
  with a show "s ! r' ! c' \<noteq> s ! r ! c" by blast
qed

lemma is_grid_example: "is_grid example_grid"
  by (simp add: is_grid_def example_grid_def)

lemma completes_example: "completes emptyBoard example_grid"
  by (rule all_differ_completes [OF is_grid_example all_differ_example])

lemma completions_emptyBoard: "completions emptyBoard \<noteq> {}"
  using completes_example by (auto simp: completions_def)

lemma completes_empty_range:
  "completes emptyBoard s \<Longrightarrow> r < 9 \<Longrightarrow> c < 9 \<Longrightarrow> 1 \<le> s ! r ! c \<and> s ! r ! c \<le> 9"
  using completes_range [of emptyBoard s r c] emptyBoard_nth [of r c] by blast

lemma completes_empty_differ:
  "completes emptyBoard s \<Longrightarrow> r < 9 \<Longrightarrow> c < 9 \<Longrightarrow> r' < 9 \<Longrightarrow> c' < 9 \<Longrightarrow>
     (r', c') \<noteq> (r, c) \<Longrightarrow> related (r, c) (r', c') \<Longrightarrow> s ! r' ! c' \<noteq> s ! r ! c"
  using completes_differ [of emptyBoard s r c r' c'] emptyBoard_nth [of r c] by blast

text \<open>A list of nine values holds each of 1..9 once iff it is a duplicate-free list of 1..9.\<close>

lemma each_once_iff:
  assumes "length xs = 9"
  shows "each_once xs \<longleftrightarrow> distinct xs \<and> set xs = {1..9}"
proof
  assume eo: "each_once xs"
  have "mset_set {1..9::int} \<subseteq># mset xs"
  proof (rule mset_subset_eqI)
    fix a :: int
    show "count (mset_set {1..9}) a \<le> count (mset xs) a"
      using eo by (auto simp: each_once_def count_mset count_mset_set')
  qed
  then obtain R where R: "mset xs = mset_set {1..9::int} + R"
    by (auto simp: mset_subset_eq_exists_conv)
  have "size (mset xs) = size (mset_set {1..9::int}) + size R"
    by (simp add: R)
  then have "R = {#}" using assms by simp
  then have eq: "mset xs = mset_set {1..9::int}" using R by simp
  have "set xs = {1..9}" using arg_cong [OF eq, of set_mset] by simp
  moreover have "distinct xs"
    unfolding distinct_count_atmost_1 eq \<open>set xs = {1..9}\<close>
    by (simp add: count_mset_set')
  ultimately show "distinct xs \<and> set xs = {1..9}" by simp
next
  assume "distinct xs \<and> set xs = {1..9}"
  then have "mset xs = mset_set {1..9::int}" using mset_set_set [of xs] by simp
  then have "count (mset xs) v = (if v \<in> {1..9} then 1 else 0)" for v
    by (simp add: count_mset_set')
  then show "each_once xs" by (simp add: each_once_def count_mset)
qed

lemma distinct_range_each_once:
  assumes "length xs = 9" "distinct xs" "set xs \<subseteq> {1..9}"
  shows "each_once xs"
proof -
  have "card (set xs) = 9" using assms(1,2) by (simp add: distinct_card)
  then have "set xs = {1..9}"
    using assms(3) by (intro card_subset_eq) simp_all
  then show ?thesis using assms by (simp add: each_once_iff)
qed

lemma each_once_mapI:
  assumes "length ps = 9" "distinct ps"
    and "\<And>p. p \<in> set ps \<Longrightarrow> 1 \<le> f p \<and> f p \<le> (9::int)"
    and "\<And>p q. p \<in> set ps \<Longrightarrow> q \<in> set ps \<Longrightarrow> p \<noteq> q \<Longrightarrow> f p \<noteq> f q"
  shows "each_once (map f ps)"
proof (rule distinct_range_each_once)
  show "length (map f ps) = 9" using assms(1) by simp
  have "inj_on f (set ps)" using assms(4) by (auto simp: inj_on_def)
  then show "distinct (map f ps)" using assms(2) by (simp add: distinct_map)
  show "set (map f ps) \<subseteq> {1..9}" using assms(3) by auto
qed

lemma each_once_mapD:
  assumes "each_once (map f ps)" "length ps = 9"
  shows "\<And>p. p \<in> set ps \<Longrightarrow> 1 \<le> f p \<and> f p \<le> 9"
    and "\<And>p q. p \<in> set ps \<Longrightarrow> q \<in> set ps \<Longrightarrow> p \<noteq> q \<Longrightarrow> f p \<noteq> f q"
proof -
  have "distinct (map f ps) \<and> set (map f ps) = {1..9}"
    using assms by (simp add: each_once_iff)
  then have d: "inj_on f (set ps)" and s: "f ` set ps = {1..9}"
    by (simp_all add: distinct_map)
  show "1 \<le> f p \<and> f p \<le> 9" if "p \<in> set ps" for p
    using s that by (metis atLeastAtMost_iff imageI)
  show "f p \<noteq> f q" if "p \<in> set ps" "q \<in> set ps" "p \<noteq> q" for p q
    using d that by (auto simp: inj_on_def)
qed

lemma box_offsets: "length (List.product [0..<3] [0..<3]) = 9"
  "distinct (List.product [0..<3] [0..<3])"
  "set (List.product [0..<3] [0..<3]) = {(i, j). i < 3 \<and> j < (3::nat)}"
  by (auto simp: distinct_product)

lemma completes_empty_legal:
  assumes s: "completes emptyBoard s"
  shows "legal_full s"
proof -
  note rng = completes_empty_range [OF s] and dif = completes_empty_differ [OF s]
  have rows: "each_once (rowVals s r)" if "r < 9" for r
    unfolding rowVals_def
    by (rule each_once_mapI) (use that rng dif in \<open>auto simp: related_def\<close>)
  have cols: "each_once (colVals s c)" if "c < 9" for c
    unfolding colVals_def
    by (rule each_once_mapI) (use that rng dif in \<open>auto simp: related_def\<close>)
  have boxes: "each_once (boxVals s br bc)" if b: "br < 3" "bc < 3" for br bc
    unfolding boxVals_def
  proof (rule each_once_mapI)
    fix p assume "p \<in> set (List.product [0..<3] [0..<3])"
    then obtain i j where p: "p = (i, j)" "i < 3" "j < 3" by (auto simp: box_offsets)
    have "3 * br + i < 9" "3 * bc + j < 9" using b p by auto
    then show "1 \<le> (case p of (i, j) \<Rightarrow> s ! (3 * br + i) ! (3 * bc + j))
        \<and> (case p of (i, j) \<Rightarrow> s ! (3 * br + i) ! (3 * bc + j)) \<le> 9"
      using rng p(1) by simp
  next
    fix p q assume pin: "p \<in> set (List.product [0..<3] [0..<3])"
      and qin: "q \<in> set (List.product [0..<3] [0..<3])" and ne: "p \<noteq> q"
    from pin obtain i j where p: "p = (i, j)" "i < 3" "j < 3" by (auto simp: box_offsets)
    from qin obtain i' j' where q: "q = (i', j')" "i' < 3" "j' < 3" by (auto simp: box_offsets)
    have lt: "3 * br + i < 9" "3 * bc + j < 9" "3 * br + i' < 9" "3 * bc + j' < 9"
      using b p q by auto
    have rel: "related (3 * br + i', 3 * bc + j') (3 * br + i, 3 * bc + j)"
      using p q by (simp add: related_def)
    have "(3 * br + i, 3 * bc + j) \<noteq> (3 * br + i', 3 * bc + j')" using ne p q by auto
    from dif [OF lt(3,4) lt(1,2) this rel]
    show "(case p of (i, j) \<Rightarrow> s ! (3 * br + i) ! (3 * bc + j))
        \<noteq> (case q of (i, j) \<Rightarrow> s ! (3 * br + i) ! (3 * bc + j))"
      using p(1) q(1) by simp
  qed (simp_all add: box_offsets)
  show ?thesis
    unfolding legal_full_def using completes_grid [OF s] rows cols boxes by simp
qed

lemma legal_completes_empty:
  assumes l: "legal_full s"
  shows "completes emptyBoard s"
proof (rule completes_emptyI)
  show g: "is_grid s" using l by (simp add: legal_full_def)
  have len: "length [0..<9] = 9" by simp
  have row: "each_once (map (\<lambda>c. s ! r ! c) [0..<9])" if "r < 9" for r
    using l that by (simp add: legal_full_def rowVals_def)
  have col: "each_once (map (\<lambda>r. s ! r ! c) [0..<9])" if "c < 9" for c
    using l that by (simp add: legal_full_def colVals_def)
  have box: "each_once (map (\<lambda>(i, j). s ! (3 * br + i) ! (3 * bc + j)) (List.product [0..<3] [0..<3]))"
    if "br < 3" "bc < 3" for br bc
    using l that by (simp add: legal_full_def boxVals_def)
  show "1 \<le> s ! r ! c \<and> s ! r ! c \<le> 9" if "r < 9" "c < 9" for r c
    using each_once_mapD(1) [OF row [OF that(1)] len, of c] that(2) by simp
  fix r c r' c' :: nat
  assume a: "r < 9" "c < 9" "r' < 9" "c' < 9" "(r', c') \<noteq> (r, c)" "related (r, c) (r', c')"
  from a(6) consider "r' = r" | "c' = c" | "r' div 3 = r div 3" "c' div 3 = c div 3"
    unfolding related_def fst_conv snd_conv by metis
  then show "s ! r' ! c' \<noteq> s ! r ! c"
  proof cases
    case 1
    then have "c' \<noteq> c" using a(5) by simp
    then show ?thesis
      using each_once_mapD(2) [OF row [OF a(1)] len, of c' c] a(2,4) 1 by simp
  next
    case 2
    then have "r' \<noteq> r" using a(5) by simp
    then show ?thesis
      using each_once_mapD(2) [OF col [OF a(2)] len, of r' r] a(1,3) 2 by simp
  next
    case 3
    let ?br = "r div 3" and ?bc = "c div 3"
    have b: "?br < 3" "?bc < 3" using a(1,2) by auto
    have r: "r = 3 * ?br + r mod 3" "r' = 3 * ?br + r' mod 3" using 3(1) by presburger+
    have c: "c = 3 * ?bc + c mod 3" "c' = 3 * ?bc + c' mod 3" using 3(2) by presburger+
    have "(r' mod 3, c' mod 3) \<noteq> (r mod 3, c mod 3)" using a(5) r c by (metis prod.inject)
    moreover have "(r' mod 3, c' mod 3) \<in> set (List.product [0..<3] [0..<3])"
      "(r mod 3, c mod 3) \<in> set (List.product [0..<3] [0..<3])"
      by (simp_all add: box_offsets)
    ultimately have "(case (r' mod 3, c' mod 3) of (i, j) \<Rightarrow> s ! (3 * ?br + i) ! (3 * ?bc + j))
        \<noteq> (case (r mod 3, c mod 3) of (i, j) \<Rightarrow> s ! (3 * ?br + i) ! (3 * ?bc + j))"
      by (rule each_once_mapD(2) [OF box [OF b] box_offsets(1), rotated 2])
    then show ?thesis using r c by simp
  qed
qed

lemma legal_full_iff: "legal_full s \<longleftrightarrow> completes emptyBoard s"
  using completes_empty_legal legal_completes_empty by blast

section \<open>The carve loop\<close>

lemma le_Suc_pred: "n \<le> Suc (n - 1)" for n :: nat
  by arith


lemma countFilled_full:
  assumes "\<And>r c. r < 9 \<Longrightarrow> c < 9 \<Longrightarrow> b ! r ! c \<noteq> 0"
  shows "countFilled b = 81"
proof -
  have "filter (\<lambda>(r, c). b ! r ! c \<noteq> 0) all_cells = all_cells"
    by (rule filter_True) (use assms in \<open>auto simp: set_all_cells\<close>)
  then show ?thesis by (simp add: countFilled_def length_all_cells)
qed

lemma countFilled_clear:
  assumes "is_grid b" "r < 9" "c < 9"
  shows "countFilled b \<le> Suc (countFilled (set_cell b r c 0))"
proof -
  let ?P = "\<lambda>(r, c). b ! r ! c \<noteq> 0"
  let ?xs = "filter ?P all_cells"
  have in_cells: "\<And>p. p \<in> set all_cells \<Longrightarrow> fst p < 9 \<and> snd p < 9"
    by (auto simp: set_all_cells)
  have "filter (\<lambda>(r', c'). set_cell b r c 0 ! r' ! c' \<noteq> 0) all_cells
      = filter (\<lambda>p. p \<noteq> (r, c)) ?xs"
    unfolding filter_filter
    by (rule filter_cong [OF refl]) (use assms in \<open>auto simp: nth_set_cell dest: in_cells\<close>)
  also have "\<dots> = filter (\<lambda>p. (r, c) \<noteq> p) ?xs"
    by (rule filter_cong [OF refl]) auto
  also have "\<dots> = removeAll (r, c) ?xs"
    by (simp only: removeAll_filter_not_eq)
  also have "\<dots> = remove1 (r, c) ?xs"
    by (rule distinct_remove1_removeAll [symmetric]) (simp add: distinct_all_cells)
  finally have "countFilled (set_cell b r c 0) = length (remove1 (r, c) ?xs)"
    by (simp add: countFilled_def)
  moreover have "length ?xs \<le> Suc (length (remove1 (r, c) ?xs))"
  proof (cases "(r, c) \<in> set ?xs")
    case True
    have "length ?xs \<le> Suc (length ?xs - 1)" by (rule le_Suc_pred)
    then show ?thesis using True by (simp only: length_remove1 if_True)
  next
    case False
    then show ?thesis by (simp only: length_remove1 if_False)
  qed
  ultimately show ?thesis
    by (simp only: countFilled_def)
qed

lemma sub_board_completes:
  assumes s: "completes emptyBoard s" and g: "is_grid b" and sub: "sub_board b s"
  shows "completes b s"
proof (rule completesI)
  show "is_grid s" by (rule completes_grid [OF s])
  show "s ! r ! c = b ! r ! c" if "r < 9" "c < 9" "b ! r ! c \<noteq> 0" for r c
    using sub that by (simp add: sub_board_def)
  show "1 \<le> s ! r ! c \<and> s ! r ! c \<le> 9" if "r < 9" "c < 9" for r c
    by (rule completes_empty_range [OF s that])
  show "s ! r' ! c' \<noteq> s ! r ! c"
    if "r < 9" "c < 9" "r' < 9" "c' < 9" "(r', c') \<noteq> (r, c)" "related (r, c) (r', c')"
    for r c r' c'
    by (rule completes_empty_differ [OF s that])
qed

lemma sub_board_clear:
  assumes "is_grid b" "r < 9" "c < 9" "sub_board b s"
  shows "sub_board (set_cell b r c 0) s"
  using assms(4) unfolding sub_board_def by (simp add: nth_set_cell [OF assms(1-3)])

lemma sub_board_refl: "sub_board s s"
  by (simp add: sub_board_def)

lemma randInt_range:
  assumes "lo \<le> hi"
  shows "lo \<le> fst (randInt lo hi g) \<and> fst (randInt lo hi g) \<le> hi"
proof -
  have "g 0 mod Suc (hi - lo) < Suc (hi - lo)" by (rule mod_less_divisor) simp
  then have "g 0 mod Suc (hi - lo) + lo \<le> hi" using assms by linarith
  then show ?thesis by (simp add: randInt_def randBelow_def)
qed

lemma shuffle_cells:
  "set (fst (shuffleInPlace [0..<81] g)) = {..<81}" "length (fst (shuffleInPlace [0..<81] g)) = 81"
proof -
  have m: "mset (fst (shuffleInPlace [0..<81] g)) = mset [0..<81]"
    by (rule shuffleInPlace_mset)
  have "set (fst (shuffleInPlace [0..<81] g)) = set [0..<81]"
    by (rule mset_eq_setD [OF m])
  then show "set (fst (shuffleInPlace [0..<81] g)) = {..<81}"
    by (simp only: set_upt atLeast0LessThan)
  have "length (fst (shuffleInPlace [0..<81] g)) = length [0..<81]"
    by (rule mset_eq_length [OF m])
  then show "length (fst (shuffleInPlace [0..<81] g)) = 81"
    by (simp only: length_upt)
qed

lemma carveLoop_stop:
  assumes "\<not> (cells \<noteq> [] \<and> countFilled board > t \<and> att < m * 81)"
  shows "carveLoop t m (cells, board, att, g) = Some (cells, board, att, g)"
  by (subst carveLoop.simps) (rule if_not_P [OF assms])

lemma carveLoop_step:
  assumes "countFilled board > t" "att < m * 81"
    and "solve (set_cell board (x div 9) (x mod 9) 0) True g
          = Some (\<lparr>solved = 0 < n, solutions = Some n\<rparr>, board2, g')"
  shows "carveLoop t m (xs @ [x], board, att, g)
     = carveLoop t m (xs, (if n = 0 \<or> n \<noteq> 1
          then set_cell board2 (x div 9) (x mod 9) (board ! (x div 9) ! (x mod 9)) else board2),
          att + 1, g')"
  using assms by (subst carveLoop.simps) (simp add: Let_def)

lemma carveLoop_spec:
  assumes "is_grid board" "set cells \<subseteq> {..<81}"
  shows "\<exists>st'. carveLoop t m (cells, board, att, g) = Some st'
     \<and> carve_post t m sol (cells, board, att, g) st'"
  using assms
proof (induction cells arbitrary: board att g rule: rev_induct)
  case Nil
  have "carveLoop t m ([], board, att, g) = Some ([], board, att, g)"
    by (rule carveLoop_stop) simp
  then show ?case using Nil.prems(1) by (simp add: carve_post_def)
next
  case (snoc x xs)
  note g = \<open>is_grid board\<close>
  show ?case
  proof (cases "countFilled board > t \<and> att < m * 81")
    case False
    then have "carveLoop t m (xs @ [x], board, att, g) = Some (xs @ [x], board, att, g)"
      by (intro carveLoop_stop) blast
    then show ?thesis using False g by (auto simp: carve_post_def)
  next
    case True
    let ?r = "x div 9" and ?c = "x mod 9"
    let ?b1 = "set_cell board ?r ?c 0"
    have "x < 81" using snoc.prems(2) by simp
    then have rc: "?r < 9" "?c < 9" by simp_all
    have g1: "is_grid ?b1" by (rule is_grid_set_cell [OF g])
    let ?n = "min 2 (card (completions ?b1))"
    from solve_count [OF g1, of g] obtain g' where
      sv: "solve ?b1 True g = Some (\<lparr>solved = 0 < ?n, solutions = Some ?n\<rparr>, ?b1, g')" ..
    let ?b3 = "if ?n = 0 \<or> ?n \<noteq> 1 then set_cell ?b1 ?r ?c (board ! ?r ! ?c) else ?b1"
    have step: "carveLoop t m (xs @ [x], board, att, g) = carveLoop t m (xs, ?b3, att + 1, g')"
      using True by (intro carveLoop_step [OF _ _ sv]) simp_all
    have undo: "set_cell ?b1 ?r ?c (board ! ?r ! ?c) = board"
      using g rc by (simp add: set_cell_set_cell set_cell_same)
    have g3: "is_grid ?b3" using g g1 undo by simp
    have xs: "set xs \<subseteq> {..<81}" using snoc.prems(2) by simp
    from snoc.IH [OF g3 xs, of "att + 1" g'] obtain st' where
      res: "carveLoop t m (xs, ?b3, att + 1, g') = Some st'"
      and post: "carve_post t m sol (xs, ?b3, att + 1, g') st'"
      by blast
    obtain cells' board' att' h where st': "st' = (cells', board', att', h)"
      by (cases st') auto
    have cnt3: "t \<le> countFilled ?b3"
    proof (cases "?n = 0 \<or> ?n \<noteq> 1")
      case True
      then show ?thesis using undo \<open>countFilled board > t \<and> att < m * 81\<close> by simp
    next
      case False
      have "countFilled board \<le> Suc (countFilled ?b1)" by (rule countFilled_clear [OF g rc])
      then show ?thesis using False \<open>countFilled board > t \<and> att < m * 81\<close> by simp
    qed
    have inv3: "sub_board ?b3 sol \<and> card (completions ?b3) = 1"
      if "sub_board board sol \<and> card (completions board) = 1"
    proof (cases "?n = 0 \<or> ?n \<noteq> 1")
      case True
      then show ?thesis using undo that by simp
    next
      case False
      then have "?n = 1" by blast
      then have "card (completions ?b1) = 1" by (simp only: min2_one)
      moreover have "sub_board ?b1 sol" using that sub_board_clear [OF g rc] by blast
      ultimately show ?thesis using False by simp
    qed
    have "carve_post t m sol (xs @ [x], board, att, g) st'"
      using post cnt3 inv3 unfolding carve_post_def st' prod.case
      by (simp (no_asm_use)) blast
    then show ?thesis using step res by simp
  qed
qed

section \<open>A run of the generator\<close>

lemma config_range: "minGiven (DIFFICULTY_CONFIG d) \<le> maxGiven (DIFFICULTY_CONFIG d)"
  "maxGiven (DIFFICULTY_CONFIG d) \<le> 81" "3 \<le> maxAttempts (DIFFICULTY_CONFIG d)"
  by (cases d; simp)+

lemma carve_target_range:
  "minGiven (DIFFICULTY_CONFIG d) \<le> carve_target d g1"
  "carve_target d g1 \<le> maxGiven (DIFFICULTY_CONFIG d)"
  using randInt_range [OF config_range(1), of d g1] by (simp_all add: carve_target_def)

lemma carve_init_cells:
  obtains cells g2 where "carve_init d full g1 = (cells, full, 0, g2)"
    "set cells = {..<81}" "length cells = 81"
proof -
  obtain t g1' where r: "randInt (minGiven (DIFFICULTY_CONFIG d)) (maxGiven (DIFFICULTY_CONFIG d)) g1 = (t, g1')"
    by (cases "randInt (minGiven (DIFFICULTY_CONFIG d)) (maxGiven (DIFFICULTY_CONFIG d)) g1")
  obtain cells g2 where s: "shuffleInPlace [0..<81] g1' = (cells, g2)"
    by (cases "shuffleInPlace [0..<81] g1'")
  have "carve_init d full g1 = (cells, full, 0, g2)" by (simp add: carve_init_def r s)
  moreover have "set cells = {..<81}" "length cells = 81"
    using shuffle_cells [of g1'] s by simp_all
  ultimately show thesis by (rule that)
qed

lemma carvePuzzle_carveLoop:
  "carvePuzzle full (minGiven (DIFFICULTY_CONFIG d)) (maxGiven (DIFFICULTY_CONFIG d))
       (maxAttempts (DIFFICULTY_CONFIG d)) g1
   = Option.bind (carveLoop (carve_target d g1) (maxAttempts (DIFFICULTY_CONFIG d)) (carve_init d full g1))
       (\<lambda>(cells', board', attempts', g3). Some (board', g3))"
  by (simp add: carvePuzzle_def carve_target_def carve_init_def cloneBoard_id split: prod.splits)

lemma fillBoard_empty:
  "\<exists>full g1. fillBoard (emptyBoard, g) = Some (True, full, g1) \<and> completes emptyBoard full"
  using fillBoard_spec [OF is_grid_emptyBoard, of g] completions_emptyBoard by auto

lemma completes_full_board:
  assumes "completes emptyBoard s"
  shows "completions s = {s}"
proof (rule completions_full)
  show "is_grid s" by (rule completes_grid [OF assms])
  show "s ! r ! c \<noteq> 0" if "r < 9" "c < 9" for r c
    using completes_empty_range [OF assms that] by auto
qed

lemma generatePuzzle_run:
  "\<exists>full g1 cells' board' att' g3.
      fillBoard (emptyBoard, g) = Some (True, full, g1)
    \<and> completes emptyBoard full
    \<and> carveLoop (carve_target d g1) (maxAttempts (DIFFICULTY_CONFIG d)) (carve_init d full g1)
         = Some (cells', board', att', g3)
    \<and> carve_post (carve_target d g1) (maxAttempts (DIFFICULTY_CONFIG d)) full
         (carve_init d full g1) (cells', board', att', g3)
    \<and> generatePuzzle d g = Some (\<lparr>puzzle = board', solution = full, difficulty = d\<rparr>, g3)"
proof -
  from fillBoard_empty [of g] obtain full g1 where
    fb: "fillBoard (emptyBoard, g) = Some (True, full, g1)" and cf: "completes emptyBoard full"
    by blast
  obtain cells g2 where ci: "carve_init d full g1 = (cells, full, 0, g2)"
    and cells: "set cells = {..<81}" "length cells = 81"
    by (rule carve_init_cells)
  have gf: "is_grid full" by (rule completes_grid [OF cf])
  have sub: "set cells \<subseteq> {..<81}" using cells(1) by simp
  from carveLoop_spec [OF gf sub, of "carve_target d g1" "maxAttempts (DIFFICULTY_CONFIG d)" 0 g2 full]
  obtain st' where cl: "carveLoop (carve_target d g1) (maxAttempts (DIFFICULTY_CONFIG d)) (cells, full, 0, g2) = Some st'"
    and post: "carve_post (carve_target d g1) (maxAttempts (DIFFICULTY_CONFIG d)) full (cells, full, 0, g2) st'"
    by blast
  obtain cells' board' att' g3 where st': "st' = (cells', board', att', g3)" by (cases st') auto
  have gp: "generatePuzzle d g = Some (\<lparr>puzzle = board', solution = full, difficulty = d\<rparr>, g3)"
    unfolding generatePuzzle_def Let_def
    by (simp add: fb cloneBoard_id carvePuzzle_carveLoop ci cl st')
  have cl': "carveLoop (carve_target d g1) (maxAttempts (DIFFICULTY_CONFIG d)) (carve_init d full g1)
      = Some (cells', board', att', g3)"
    using cl by (simp add: ci st')
  have post': "carve_post (carve_target d g1) (maxAttempts (DIFFICULTY_CONFIG d)) full
      (carve_init d full g1) (cells', board', att', g3)"
    using post by (simp add: ci st')
  from fb cf cl' post' gp show ?thesis by blast
qed

lemma carve_post_init:
  assumes cf: "completes emptyBoard full"
    and post: "carve_post t m full (carve_init d full g1) (cells', board', att', g3)"
  shows "is_grid board'" "att' + length cells' = 81"
    "cells' = [] \<or> countFilled board' \<le> t \<or> \<not> att' < m * 81"
    "t \<le> 81 \<Longrightarrow> t \<le> countFilled board'"
    "sub_board board' full" "completions board' = {full}"
proof -
  obtain cells g2 where ci: "carve_init d full g1 = (cells, full, 0, g2)"
    and cells: "set cells = {..<81}" "length cells = 81"
    by (rule carve_init_cells)
  note p = post [unfolded ci carve_post_def prod.case]
  show g: "is_grid board'" using p by blast
  show "att' + length cells' = 81" using p cells(2) by simp
  show "cells' = [] \<or> countFilled board' \<le> t \<or> \<not> att' < m * 81" using p by blast
  have "full ! r ! c \<noteq> 0" if "r < 9" "c < 9" for r c
    using completes_empty_range [OF cf that] by simp
  then have "countFilled full = 81" by (rule countFilled_full)
  then show "t \<le> countFilled board'" if "t \<le> 81" using p that by simp
  have "card (completions full) = 1" by (simp add: completes_full_board [OF cf])
  then have inv: "sub_board board' full" "card (completions board') = 1"
    using p sub_board_refl [of full] by blast+
  show "sub_board board' full" by fact
  have "full \<in> completions board'"
    using sub_board_completes [OF cf g inv(1)] by (simp add: mem_completions)
  moreover obtain x where "completions board' = {x}"
    using inv(2) by (auto simp: card_1_singleton_iff)
  ultimately show "completions board' = {full}" by simp
qed

lemma unique_completion:
  assumes cf: "completes emptyBoard full" and g: "is_grid b"
    and sub: "sub_board b full" and one: "completions b = {full}"
  shows "is_completion b s \<longleftrightarrow> s = full"
proof
  assume c: "is_completion b s"
  then have cs: "completes emptyBoard s" by (simp add: is_completion_def legal_full_iff)
  have "sub_board b s" using c unfolding is_completion_def sub_board_def by metis
  then have "completes b s" by (rule sub_board_completes [OF cs g])
  then have "s \<in> completions b" by (simp add: mem_completions)
  then show "s = full" by (simp add: one)
next
  assume "s = full"
  moreover have "legal_full full" using cf by (simp add: legal_full_iff)
  moreover have "\<forall>r<9. \<forall>c<9. b ! r ! c \<noteq> 0 \<longrightarrow> full ! r ! c = b ! r ! c"
    using sub unfolding sub_board_def by metis
  ultimately show "is_completion b s" by (simp add: is_completion_def)
qed

lemma carveLoop_budget_indep:
  assumes "att + length cells \<le> 81" "3 \<le> m" "3 \<le> m'"
  shows "carveLoop t m (cells, board, att, g) = carveLoop t m' (cells, board, att, g)"
  using assms(1)
proof (induction cells arbitrary: board att g rule: rev_induct)
  case Nil
  show ?case by (simp add: carveLoop_stop)
next
  case (snoc x xs)
  have att: "att < m * 81" "att < m' * 81" using snoc.prems assms(2,3) by simp_all
  show ?case
  proof (cases "countFilled board > t")
    case False
    then show ?thesis by (simp add: carveLoop_stop)
  next
    case True
    have rec: "carveLoop t m (xs, b3, Suc att, h) = carveLoop t m' (xs, b3, Suc att, h)" for b3 h
      by (rule snoc.IH) (use snoc.prems in simp)
    show ?thesis
      using True att
      by (subst carveLoop.simps, subst (2) carveLoop.simps)
        (simp add: Let_def rec split: option.splits prod.splits)
  qed
qed

lemma isComplete_iff: "isComplete b \<longleftrightarrow> (\<forall>r<9. \<forall>c<9. b ! r ! c \<noteq> 0)"
  by (auto simp: isComplete_def list_ex_iff set_all_cells)

lemma boardEquals_iff: "boardEquals a b \<longleftrightarrow> (\<forall>r<9. \<forall>c<9. a ! r ! c = b ! r ! c)"
  by (auto simp: boardEquals_def list_ex_iff set_all_cells)

lemma solve_returns:
  assumes "is_grid b"
  shows "\<exists>res b' g'. solve b cs g = Some (res, b', g')"
proof (cases cs)
  case True
  then show ?thesis using solve_count [OF assms, of g] by auto
next
  case False
  then show ?thesis using solve_first [OF assms, of g] by auto
qed

lemma carve_attempts_bound:
  assumes "att' + length cells' = 81"
  shows "att' \<le> 81" "att' < maxAttempts (DIFFICULTY_CONFIG d) * 81"
proof -
  show "att' \<le> 81" using assms by simp
  then show "att' < maxAttempts (DIFFICULTY_CONFIG d) * 81"
    using config_range(3) [of d] by simp
qed


lemma bad_grid_nth: "r < 9 \<Longrightarrow> c < 9 \<Longrightarrow> bad_grid ! r ! c = 42"
  by (simp add: bad_grid_def)

lemma is_grid_bad: "is_grid bad_grid"
  by (simp add: is_grid_def bad_grid_def)

lemma not_well_formed_bad: "\<not> well_formed bad_grid"
proof
  assume "well_formed bad_grid"
  then have "\<forall>r<9. \<forall>c<9. 0 \<le> bad_grid ! r ! c \<and> bad_grid ! r ! c \<le> 9"
    by (simp add: well_formed_def)
  then have "(0::nat) < 9 \<longrightarrow> bad_grid ! 0 ! 0 \<le> 9" by blast
  then have "bad_grid ! 0 ! 0 \<le> 9" by simp
  then show False by (simp add: bad_grid_nth)
qed


section \<open>The difficulty table\<close>

text \<open>
  C7: every entry has \<open>minGiven \<le> maxGiven \<le> 81\<close>; going from EASY to EXPERT each
  level's \<open>maxGiven\<close> is below the previous level's \<open>minGiven\<close>, and the attempt
  multipliers strictly increase.
\<close>

theorem difficulty_table_ordered:
  "(\<forall>d. minGiven (DIFFICULTY_CONFIG d) \<le> maxGiven (DIFFICULTY_CONFIG d)
        \<and> 0 \<le> int (minGiven (DIFFICULTY_CONFIG d))
        \<and> maxGiven (DIFFICULTY_CONFIG d) \<le> 81)
   \<and> maxGiven (DIFFICULTY_CONFIG MEDIUM) < minGiven (DIFFICULTY_CONFIG EASY)
   \<and> maxGiven (DIFFICULTY_CONFIG HARD) < minGiven (DIFFICULTY_CONFIG MEDIUM)
   \<and> maxGiven (DIFFICULTY_CONFIG EXPERT) < minGiven (DIFFICULTY_CONFIG HARD)
   \<and> maxAttempts (DIFFICULTY_CONFIG EASY) < maxAttempts (DIFFICULTY_CONFIG MEDIUM)
   \<and> maxAttempts (DIFFICULTY_CONFIG MEDIUM) < maxAttempts (DIFFICULTY_CONFIG HARD)
   \<and> maxAttempts (DIFFICULTY_CONFIG HARD) < maxAttempts (DIFFICULTY_CONFIG EXPERT)"
proof -
  have "minGiven (DIFFICULTY_CONFIG d) \<le> maxGiven (DIFFICULTY_CONFIG d)
        \<and> maxGiven (DIFFICULTY_CONFIG d) \<le> 81" for d
    by (cases d) simp_all
  then show ?thesis by simp
qed

section \<open>The constraint check: claim\<close>

text \<open>
  C5: on a 9x9 grid with \<open>row\<close> and \<open>col\<close> in \<open>0..8\<close>, \<^verbatim>\<open>isValidPlacement\<close> returns false
  exactly when the value occurs in the row, in the column, or in the 3x3 box whose
  corner is \<open>(row div 3 * 3, col div 3 * 3)\<close>. The target cell is not exempted: when it
  already holds the value, the result is false.
\<close>

theorem isValidPlacement_false_iff:
  assumes "is_grid board" "row < 9" "col < 9"
  shows "(isValidPlacement board row col v = False \<longleftrightarrow>
            (\<exists>c<9. board ! row ! c = v) \<or> (\<exists>r<9. board ! r ! col = v)
            \<or> (\<exists>i<3. \<exists>j<3. board ! (row div 3 * 3 + i) ! (col div 3 * 3 + j) = v))
       \<and> (board ! row ! col = v \<longrightarrow> isValidPlacement board row col v = False)"
proof -
  have "isValidPlacement board row col v = False" if "board ! row ! col = v"
    using that assms(3) unfolding isValidPlacement_iff by blast
  then show ?thesis unfolding isValidPlacement_iff by blast
qed

theorem isValidPlacement_false_iff_witness:
  "is_grid (set_cell emptyBoard 4 4 5) \<and> (4::nat) < 9
   \<and> set_cell emptyBoard 4 4 5 ! 4 ! 4 = 5
   \<and> isValidPlacement (set_cell emptyBoard 4 4 5) 4 4 5 = False
   \<and> isValidPlacement (set_cell emptyBoard 4 4 5) 0 0 5 = True"
proof -
  let ?b = "set_cell emptyBoard 4 4 5"
  have g: "is_grid ?b" by (rule is_grid_set_cell [OF is_grid_emptyBoard])
  have nth: "?b ! r ! c = (if r = 4 \<and> c = 4 then 5 else 0)" if "r < 9" "c < 9" for r c
    using that nth_set_cell [OF is_grid_emptyBoard, of 4 4 5 r c] by (simp add: emptyBoard_def)
  have c: "?b ! 4 ! 4 = 5" by (simp add: nth)
  have ne: "\<not> ((\<exists>c<9. ?b ! 0 ! c = 5) \<or> (\<exists>r<9. ?b ! r ! 0 = 5)
            \<or> (\<exists>i<3. \<exists>j<3. ?b ! (0 div 3 * 3 + i) ! (0 div 3 * 3 + j) = 5))"
    by (auto simp: nth)
  have lt: "(0::nat) < 9" "(4::nat) < 9" by simp_all
  from ne have "isValidPlacement ?b 0 0 5 = True"
    using isValidPlacement_false_iff [OF g lt(1) lt(1), of 5] by blast
  moreover have "isValidPlacement ?b 4 4 5 = False"
    using isValidPlacement_false_iff [OF g lt(2) lt(2), of 5] c by blast
  ultimately show ?thesis using g c by simp
qed

section \<open>The solver: claims\<close>

text \<open>
  C2: in count mode \<^verbatim>\<open>solve\<close> returns, the reported number of solutions is the number of
  completions of the grid capped at two (so the search goes on after the first
  completion and stops counting at the second), it is 0 exactly when there is no
  completion and 1 exactly when there is a single one, it never exceeds 2, and
  \<^verbatim>\<open>solved\<close> is \<open>solutions > 0\<close>. The caller's grid is returned unchanged.
\<close>

theorem solve_count_mode:
  assumes "is_grid board"
  shows "\<exists>n g'. solve board True g = Some (\<lparr>solved = (0 < n), solutions = Some n\<rparr>, board, g')
     \<and> n = min 2 (card (completions board)) \<and> n \<le> 2
     \<and> (n = 0 \<longleftrightarrow> \<not> (\<exists>s. completes board s))
     \<and> (n = 1 \<longleftrightarrow> (\<exists>!s. completes board s))"
proof -
  let ?n = "min 2 (card (completions board))"
  have 0: "?n = 0 \<longleftrightarrow> \<not> (\<exists>s. completes board s)"
    unfolding min2_zero card_0_eq [OF finite_completions] by (rule completions_empty_iff)
  have "card (completions board) = 1 \<longleftrightarrow> (\<exists>x. completions board = {x})"
    by (simp add: card_1_singleton_iff)
  then have 1: "?n = 1 \<longleftrightarrow> (\<exists>!s. completes board s)"
    unfolding min2_one completions_single_iff .
  from solve_count [OF assms, of g] obtain g' where
    s: "solve board True g = Some (\<lparr>solved = 0 < ?n, solutions = Some ?n\<rparr>, board, g')" ..
  have le: "?n \<le> 2" by simp
  show ?thesis
    by (intro exI [of _ ?n] exI [of _ g'] conjI s refl le 0 1)
qed

theorem solve_count_mode_witness:
  "is_grid emptyBoard \<and>
   (\<exists>n g'. solve emptyBoard True (\<lambda>_. 0) = Some (\<lparr>solved = (0 < n), solutions = Some n\<rparr>, emptyBoard, g')
      \<and> n = min 2 (card (completions emptyBoard)) \<and> n \<le> 2)"
proof -
  from solve_count_mode [OF is_grid_emptyBoard, of "\<lambda>_. 0"]
  obtain n g' where "solve emptyBoard True (\<lambda>_. 0)
      = Some (\<lparr>solved = (0 < n), solutions = Some n\<rparr>, emptyBoard, g')"
    "n = min 2 (card (completions emptyBoard))" "n \<le> 2"
    by blast
  then show ?thesis using is_grid_emptyBoard by blast
qed

text \<open>
  C4: in first-solution mode \<^verbatim>\<open>solve\<close> returns \<^verbatim>\<open>{solved}\<close> without a \<^verbatim>\<open>solutions\<close> field;
  \<^verbatim>\<open>solved\<close> is true exactly when the grid has a completion. When it is true the
  caller's grid has been overwritten with a completion of the input grid, and when it is
  false the caller's grid is unchanged. In count mode the caller's grid is unchanged.
\<close>

theorem solve_board_effect:
  assumes "is_grid board"
  shows "(\<exists>ok board' g'. solve board False g = Some (\<lparr>solved = ok, solutions = None\<rparr>, board', g')
            \<and> (ok \<longleftrightarrow> (\<exists>s. completes board s))
            \<and> (ok \<longrightarrow> completes board board')
            \<and> (\<not> ok \<longrightarrow> board' = board))
       \<and> (\<exists>res g'. solve board True g = Some (res, board, g'))"
proof -
  have "completions board \<noteq> {} \<longleftrightarrow> (\<exists>s. completes board s)"
    by (auto simp: completions_def)
  then show ?thesis
    using solve_first [OF assms, of g] solve_count [OF assms, of g] by auto
qed

theorem solve_board_effect_witness:
  "is_grid emptyBoard \<and>
   (\<exists>ok board' g'. solve emptyBoard False (\<lambda>_. 0) = Some (\<lparr>solved = ok, solutions = None\<rparr>, board', g')
      \<and> ok = (\<exists>s. completes emptyBoard s))
   \<and> (\<exists>res g'. solve emptyBoard True (\<lambda>_. 0) = Some (res, emptyBoard, g'))"
  using solve_board_effect [OF is_grid_emptyBoard, of "\<lambda>_. 0"] is_grid_emptyBoard by blast

section \<open>The generator: claims\<close>

text \<open>
  C3: \<^verbatim>\<open>generatePuzzle\<close> returns; the grid filled by \<^verbatim>\<open>fillBoard\<close> (which returns true) is
  the solution grid of the result; it is 9x9, every cell holds a value in \<open>1..9\<close>, and
  every row, every column and every 3x3 box holds each of 1 to 9 exactly once.
\<close>

theorem generatePuzzle_solution_legal:
  "\<exists>full g1 p g'.
      fillBoard (emptyBoard, g) = Some (True, full, g1)
    \<and> generatePuzzle d g = Some (p, g')
    \<and> solution p = full
    \<and> legal_full (solution p)
    \<and> (\<forall>r<9. \<forall>c<9. 1 \<le> solution p ! r ! c \<and> solution p ! r ! c \<le> 9)"
proof -
  from generatePuzzle_run [of g d] obtain full g1 cells' board' att' g3 where
    fb: "fillBoard (emptyBoard, g) = Some (True, full, g1)"
    and cf: "completes emptyBoard full"
    and gp: "generatePuzzle d g = Some (\<lparr>puzzle = board', solution = full, difficulty = d\<rparr>, g3)"
    by blast
  have "legal_full full" using cf by (simp add: legal_full_iff)
  moreover have "\<forall>r<9. \<forall>c<9. 1 \<le> full ! r ! c \<and> full ! r ! c \<le> 9"
    using completes_empty_range [OF cf] by blast
  ultimately show ?thesis using fb gp by simp
qed

theorem generatePuzzle_solution_legal_witness:
  "\<exists>p g'. generatePuzzle EASY (\<lambda>_. 0) = Some (p, g') \<and> legal_full (solution p)"
  using generatePuzzle_solution_legal [of "\<lambda>_. 0" EASY] by blast

text \<open>
  C1: for every difficulty level and every random source, the puzzle grid returned by
  \<^verbatim>\<open>generatePuzzle\<close> has exactly one completion, the returned solution grid; \<^verbatim>\<open>solve\<close> in
  count mode reports \<^verbatim>\<open>solutions = 1\<close> on it, whatever the random source, and \<^verbatim>\<open>solve\<close> in
  first-solution mode turns it into the solution grid.
\<close>

theorem generatePuzzle_unique_solution:
  "\<exists>p g'. generatePuzzle d g = Some (p, g')
    \<and> (\<forall>s. is_completion (puzzle p) s \<longleftrightarrow> s = solution p)
    \<and> (\<forall>h. \<exists>h'. solve (puzzle p) True h
            = Some (\<lparr>solved = True, solutions = Some 1\<rparr>, puzzle p, h'))
    \<and> (\<forall>h. \<exists>h'. solve (puzzle p) False h
            = Some (\<lparr>solved = True, solutions = None\<rparr>, solution p, h'))"
proof -
  from generatePuzzle_run [of g d] obtain full g1 cells' board' att' g3 where
    cf: "completes emptyBoard full"
    and post: "carve_post (carve_target d g1) (maxAttempts (DIFFICULTY_CONFIG d)) full
         (carve_init d full g1) (cells', board', att', g3)"
    and gp: "generatePuzzle d g = Some (\<lparr>puzzle = board', solution = full, difficulty = d\<rparr>, g3)"
    by blast
  note cp = carve_post_init [OF cf post]
  have gb: "is_grid board'" and one: "completions board' = {full}" by (rule cp)+
  have uniq: "is_completion board' s \<longleftrightarrow> s = full" for s
    by (rule unique_completion [OF cf gb cp(5) one])
  have cnt: "\<exists>h'. solve board' True h = Some (\<lparr>solved = True, solutions = Some 1\<rparr>, board', h')" for h
    using solve_count [OF gb, of h] by (simp add: one)
  have fst: "\<exists>h'. solve board' False h = Some (\<lparr>solved = True, solutions = None\<rparr>, full, h')" for h
  proof -
    from solve_first [OF gb, of h] obtain ok b' h' where
      sv: "solve board' False h = Some (\<lparr>solved = ok, solutions = None\<rparr>, b', h')"
      and ok: "ok \<longleftrightarrow> completions board' \<noteq> {}" and b': "ok \<longrightarrow> completes board' b'"
      by blast
    have "ok" using ok one by simp
    then have "b' \<in> completions board'" using b' by (simp add: mem_completions)
    then have "b' = full" by (simp add: one)
    then show ?thesis using sv \<open>ok\<close> by simp
  qed
  let ?p = "\<lparr>puzzle = board', solution = full, difficulty = d\<rparr>"
  have "generatePuzzle d g = Some (?p, g3)
    \<and> (\<forall>s. is_completion (puzzle ?p) s \<longleftrightarrow> s = solution ?p)
    \<and> (\<forall>h. \<exists>h'. solve (puzzle ?p) True h
            = Some (\<lparr>solved = True, solutions = Some 1\<rparr>, puzzle ?p, h'))
    \<and> (\<forall>h. \<exists>h'. solve (puzzle ?p) False h
            = Some (\<lparr>solved = True, solutions = None\<rparr>, solution ?p, h'))"
    using gp uniq cnt fst by simp
  then show ?thesis
    by - (rule exI [of _ ?p], rule exI [of _ g3], assumption)
qed

theorem generatePuzzle_unique_solution_witness:
  "\<exists>p g'. generatePuzzle EASY (\<lambda>_. 0) = Some (p, g')
    \<and> is_completion (puzzle p) (solution p)
    \<and> (\<exists>h'. solve (puzzle p) True (\<lambda>_. 0)
            = Some (\<lparr>solved = True, solutions = Some 1\<rparr>, puzzle p, h'))"
proof -
  from generatePuzzle_unique_solution [of EASY "\<lambda>_. 0"] obtain p g' where
    "generatePuzzle EASY (\<lambda>_. 0) = Some (p, g')"
    "\<And>s. is_completion (puzzle p) s \<longleftrightarrow> s = solution p"
    "\<And>h. \<exists>h'. solve (puzzle p) True h
            = Some (\<lparr>solved = True, solutions = Some 1\<rparr>, puzzle p, h')"
    by blast
  then show ?thesis by blast
qed

text \<open>
  C9: the given-count of the generated puzzle is at least the carve target, which
  \<^verbatim>\<open>randInt\<close> draws in \<open>[minGiven, maxGiven]\<close>; hence it is at least \<open>minGiven\<close>.
\<close>

theorem generatePuzzle_givens_at_least_target:
  "\<exists>full g1 p g'.
      fillBoard (emptyBoard, g) = Some (True, full, g1)
    \<and> generatePuzzle d g = Some (p, g')
    \<and> minGiven (DIFFICULTY_CONFIG d) \<le> carve_target d g1
    \<and> carve_target d g1 \<le> maxGiven (DIFFICULTY_CONFIG d)
    \<and> carve_target d g1 \<le> countFilled (puzzle p)
    \<and> minGiven (DIFFICULTY_CONFIG d) \<le> countFilled (puzzle p)"
proof -
  from generatePuzzle_run [of g d] obtain full g1 cells' board' att' g3 where
    fb: "fillBoard (emptyBoard, g) = Some (True, full, g1)"
    and cf: "completes emptyBoard full"
    and post: "carve_post (carve_target d g1) (maxAttempts (DIFFICULTY_CONFIG d)) full
         (carve_init d full g1) (cells', board', att', g3)"
    and gp: "generatePuzzle d g = Some (\<lparr>puzzle = board', solution = full, difficulty = d\<rparr>, g3)"
    by blast
  note tr = carve_target_range [of d g1]
  have "carve_target d g1 \<le> 81" using tr(2) config_range(2) [of d] by simp
  then have "carve_target d g1 \<le> countFilled board'"
    by (rule carve_post_init(4) [OF cf post])
  then show ?thesis using fb gp tr by auto
qed

theorem generatePuzzle_givens_at_least_target_witness:
  "\<exists>p g'. generatePuzzle EXPERT (\<lambda>_. 0) = Some (p, g') \<and> 24 \<le> countFilled (puzzle p)"
proof -
  from generatePuzzle_givens_at_least_target [of "\<lambda>_. 0" EXPERT] obtain p g' where
    "generatePuzzle EXPERT (\<lambda>_. 0) = Some (p, g')"
    "minGiven (DIFFICULTY_CONFIG EXPERT) \<le> countFilled (puzzle p)"
    by blast
  then show ?thesis by simp
qed



text \<open>
  C10: every profile's budget \<open>maxAttempts * 81\<close> is at least 243, while the attempt
  counter and the remaining removal order always add up to 81. So the carve loop of
  \<^verbatim>\<open>generatePuzzle\<close> ends with \<open>attempts \<le> 81\<close>, below the budget, because the removal
  order is exhausted or the target is reached; and it computes the same result with any
  other budget multiplier of at least 3.
\<close>

theorem carve_budget_never_binds:
  "243 \<le> maxAttempts (DIFFICULTY_CONFIG d) * 81
   \<and> (\<exists>full g1 cells' board' att' g3.
        fillBoard (emptyBoard, g) = Some (True, full, g1)
      \<and> carveLoop (carve_target d g1) (maxAttempts (DIFFICULTY_CONFIG d)) (carve_init d full g1)
           = Some (cells', board', att', g3)
      \<and> generatePuzzle d g = Some (\<lparr>puzzle = board', solution = full, difficulty = d\<rparr>, g3)
      \<and> att' + length cells' = 81 \<and> att' \<le> 81
      \<and> att' < maxAttempts (DIFFICULTY_CONFIG d) * 81
      \<and> (cells' = [] \<or> countFilled board' \<le> carve_target d g1)
      \<and> (\<forall>m'. 3 \<le> m' \<longrightarrow>
            carveLoop (carve_target d g1) m' (carve_init d full g1) = Some (cells', board', att', g3)))"
proof -
  from generatePuzzle_run [of g d] obtain full g1 cells' board' att' g3 where
    fb: "fillBoard (emptyBoard, g) = Some (True, full, g1)"
    and cf: "completes emptyBoard full"
    and cl: "carveLoop (carve_target d g1) (maxAttempts (DIFFICULTY_CONFIG d)) (carve_init d full g1)
         = Some (cells', board', att', g3)"
    and post: "carve_post (carve_target d g1) (maxAttempts (DIFFICULTY_CONFIG d)) full
         (carve_init d full g1) (cells', board', att', g3)"
    and gp: "generatePuzzle d g = Some (\<lparr>puzzle = board', solution = full, difficulty = d\<rparr>, g3)"
    by blast
  note cp = carve_post_init [OF cf post]
  note ab1 = carve_attempts_bound(1) [OF cp(2)] and ab2 = carve_attempts_bound(2) [OF cp(2), of d]
  have stop: "cells' = [] \<or> countFilled board' \<le> carve_target d g1"
    using cp(3) ab2 by blast
  obtain cells g2 where ci: "carve_init d full g1 = (cells, full, 0, g2)"
    and cells: "set cells = {..<81}" "length cells = 81"
    by (rule carve_init_cells)
  have indep: "carveLoop (carve_target d g1) m' (carve_init d full g1) = Some (cells', board', att', g3)"
    if "3 \<le> m'" for m'
  proof -
    have "carveLoop (carve_target d g1) m' (cells, full, 0, g2)
        = carveLoop (carve_target d g1) (maxAttempts (DIFFICULTY_CONFIG d)) (cells, full, 0, g2)"
      by (rule carveLoop_budget_indep) (use cells(2) that config_range(3) [of d] in simp_all)
    then show ?thesis using cl by (simp add: ci)
  qed
  have "243 \<le> maxAttempts (DIFFICULTY_CONFIG d) * 81" using config_range(3) [of d] by simp
  then show ?thesis using fb cl gp cp(2) ab1 ab2 stop indep by blast
qed

theorem carve_budget_never_binds_witness:
  "\<exists>full g1 cells' board' att' g3.
        fillBoard (emptyBoard, \<lambda>_. 0) = Some (True, full, g1)
      \<and> carveLoop (carve_target EXPERT g1) 9 (carve_init EXPERT full g1)
           = Some (cells', board', att', g3)
      \<and> att' + length cells' = 81
      \<and> carveLoop (carve_target EXPERT g1) 3 (carve_init EXPERT full g1)
           = Some (cells', board', att', g3)"
proof -
  from carve_budget_never_binds [of EXPERT "\<lambda>_. 0"] obtain full g1 cells' board' att' g3 where
    "fillBoard (emptyBoard, \<lambda>_. 0) = Some (True, full, g1)"
    "carveLoop (carve_target EXPERT g1) (maxAttempts (DIFFICULTY_CONFIG EXPERT)) (carve_init EXPERT full g1)
           = Some (cells', board', att', g3)"
    "att' + length cells' = 81"
    "\<And>m'. 3 \<le> m' \<Longrightarrow>
        carveLoop (carve_target EXPERT g1) m' (carve_init EXPERT full g1) = Some (cells', board', att', g3)"
    by blast
  then show ?thesis by (intro exI [of _ full] exI [of _ g1] exI [of _ cells'] exI [of _ board']
        exI [of _ att'] exI [of _ g3]) simp
qed

section \<open>Malformed input\<close>

text \<open>
  C8, as stated, fails: the source has no precondition check and no error value. On
  the 9x9 grid whose cells are all 42 every operation proceeds and returns an ordinary
  result, and \<^verbatim>\<open>cloneBoard\<close> copies a grid that is not 9x9.
\<close>

theorem malformed_input_accepted:
  "\<not> well_formed bad_grid
   \<and> isComplete bad_grid = True
   \<and> boardEquals bad_grid bad_grid = True
   \<and> cloneBoard bad_grid = bad_grid
   \<and> isValidPlacement bad_grid 0 0 5 = True
   \<and> (\<exists>g'. solve bad_grid False (\<lambda>_. 0) = Some (\<lparr>solved = True, solutions = None\<rparr>, bad_grid, g'))
   \<and> (\<exists>g'. solve bad_grid True (\<lambda>_. 0) = Some (\<lparr>solved = True, solutions = Some 1\<rparr>, bad_grid, g'))
   \<and> \<not> is_grid [[1, 2]] \<and> cloneBoard [[1, 2]] = [[1, 2]]"
proof -
  have nz: "bad_grid ! r ! c \<noteq> 0" if "r < 9" "c < 9" for r c
    using that by (simp add: bad_grid_nth)
  have one: "completions bad_grid = {bad_grid}"
    by (rule completions_full [OF is_grid_bad nz])
  have c: "isComplete bad_grid = True" using nz by (simp add: isComplete_iff)
  have e: "boardEquals bad_grid bad_grid = True" by (simp add: boardEquals_iff)
  have v: "isValidPlacement bad_grid 0 0 5 = True"
    by (simp add: isValidPlacement_related bad_grid_nth)
  have s1: "\<exists>g'. solve bad_grid True (\<lambda>_. 0) = Some (\<lparr>solved = True, solutions = Some 1\<rparr>, bad_grid, g')"
    using solve_count [OF is_grid_bad, of "\<lambda>_. 0"] by (simp add: one)
  have s2: "\<exists>g'. solve bad_grid False (\<lambda>_. 0) = Some (\<lparr>solved = True, solutions = None\<rparr>, bad_grid, g')"
  proof -
    from solve_first [OF is_grid_bad, of "\<lambda>_. 0"] obtain ok b' h' where
      sv: "solve bad_grid False (\<lambda>_. 0) = Some (\<lparr>solved = ok, solutions = None\<rparr>, b', h')"
      and ok: "ok \<longleftrightarrow> completions bad_grid \<noteq> {}" and b': "ok \<longrightarrow> completes bad_grid b'"
      by blast
    have "ok" using ok one by simp
    then have "b' \<in> completions bad_grid" using b' by (simp add: mem_completions)
    then have "b' = bad_grid" by (simp add: one)
    then show ?thesis using sv \<open>ok\<close> by simp
  qed
  have n: "\<not> is_grid [[1, 2]]" by (simp add: is_grid_def)
  have cl: "cloneBoard [[1, 2]] = [[1, 2]]" by (simp add: cloneBoard_def)
  show ?thesis
    using not_well_formed_bad c e v s1 s2 n cl by (simp add: cloneBoard_id)
qed

text \<open>
  C8, amended: on every 9x9 grid, whatever integers its cells hold, \<^verbatim>\<open>cloneBoard\<close>,
  \<^verbatim>\<open>boardEquals\<close>, \<^verbatim>\<open>isComplete\<close>, \<^verbatim>\<open>isValidPlacement\<close> (for coordinates in \<open>0..8\<close>) and
  \<^verbatim>\<open>solve\<close> return their ordinary results without checking the cell values.
\<close>

theorem no_precondition_checks:
  assumes "is_grid b"
  shows "cloneBoard b = b
     \<and> boardEquals b (cloneBoard b) = True
     \<and> (isComplete b \<longleftrightarrow> (\<forall>r<9. \<forall>c<9. b ! r ! c \<noteq> 0))
     \<and> (r < 9 \<and> c < 9 \<longrightarrow>
          (isValidPlacement b r c v \<longleftrightarrow> (\<forall>r'<9. \<forall>c'<9. related (r, c) (r', c') \<longrightarrow> b ! r' ! c' \<noteq> v)))
     \<and> (\<exists>res b' g'. solve b cs g = Some (res, b', g'))"
  using solve_returns [OF assms, of cs g] isValidPlacement_related [of r c b v]
  by (simp add: cloneBoard_id boardEquals_iff isComplete_iff)

theorem no_precondition_checks_witness:
  "is_grid bad_grid \<and> \<not> well_formed bad_grid
   \<and> cloneBoard bad_grid = bad_grid
   \<and> boardEquals bad_grid (cloneBoard bad_grid) = True
   \<and> isComplete bad_grid = True
   \<and> (\<exists>res b' g'. solve bad_grid False (\<lambda>_. 0) = Some (res, b', g'))"
proof -
  note t = no_precondition_checks [OF is_grid_bad, of 0 0 5 False "\<lambda>_. 0"]
  have "\<forall>r<9. \<forall>c<9. bad_grid ! r ! c \<noteq> 0" by (simp add: bad_grid_nth)
  then have "isComplete bad_grid = True" using t by blast
  then show ?thesis using t is_grid_bad not_well_formed_bad by blast
qed

end
